theory Spec2Isabelle
  imports Main "HOL-Library.Word"
begin

section \<open>The emulator as the program sees it\<close>

text \<open>
  Both source files work on the Arcade Learning Environment through four calls only:
  \<^verbatim>\<open>getRAM()\<close>, \<^verbatim>\<open>setRAM(index, value)\<close>, \<^verbatim>\<open>step(action)\<close> and \<^verbatim>\<open>getScreenRGB()\<close>.
  The emulator itself is not part of the repository. Its state is a record of the
  memory, a list of unsigned 8-bit cells, and of everything else the emulator
  holds (processor, video chip, frame buffer, frame counters), kept abstract as
  a value of type \<open>'h\<close>.
\<close>

type_synonym byte = "8 word"

type_synonym rgb = "byte \<times> byte \<times> byte"

datatype error = IndexError | ValueError | InvalidMemoryIndex | InvalidMemoryValue

record 'h ale =
  ale_ram :: "byte list"
  ale_hidden :: 'h

text \<open>
  Sequencing of two fallible steps: an exception raised by the first one skips
  the second one.
\<close>

definition and_then :: "error + 'a \<Rightarrow> ('a \<Rightarrow> error + 'b) \<Rightarrow> error + 'b" where
  "and_then m f = (case m of Inl e \<Rightarrow> Inl e | Inr v \<Rightarrow> f v)"

text \<open>
  Modelled from the spec: \<^verbatim>\<open>getRAM\<close>, the environment's \<open>get_memory()\<close>, which
  returns the ordered sequence of the memory's bytes.
\<close>

definition getRAM :: "'h ale \<Rightarrow> byte list" where
  "getRAM a = ale_ram a"

text \<open>
  Modelled from the spec: \<^verbatim>\<open>setRAM\<close>, the environment's \<open>set_memory(index, value)\<close>,
  which fails when the value is outside \<open>[0, 255]\<close> or the index outside
  \<open>[0, N)\<close>, rejecting before any mutation, and otherwise overwrites that one
  cell. The value is an integer here, so that a call with a value that is no
  byte is a failure of the model and not lost in a conversion.
\<close>

definition setRAM :: "nat \<Rightarrow> int \<Rightarrow> 'h ale \<Rightarrow> error + 'h ale" where
  "setRAM idx v a =
     (if v < 0 \<or> 255 < v then Inl InvalidMemoryValue
      else if \<not> idx < length (ale_ram a) then Inl InvalidMemoryIndex
      else Inr (a\<lparr>ale_ram := (ale_ram a)[idx := word_of_int v]\<rparr>))"

text \<open>
  Reading one cell of the array that \<^verbatim>\<open>getRAM()\<close> returned, \<^verbatim>\<open>ram[idx]\<close>: the
  value as an integer in \<open>[0, 255]\<close>, or \<^verbatim>\<open>IndexError\<close> past the end.
\<close>

definition ram_at :: "byte list \<Rightarrow> nat \<Rightarrow> error + int" where
  "ram_at ram idx = (if idx < length ram then Inr (uint (ram ! idx)) else Inl IndexError)"

section \<open>hackatari/games/fishingderby.py\<close>

text \<open>
  The two module-level selectors \<^verbatim>\<open>FISH_MODE\<close> and \<^verbatim>\<open>SHARK_MODE\<close> are
  Python integers that \<^verbatim>\<open>modif_funcs\<close> assigns and the two patchers read.
\<close>

record globals =
  FISH_MODE :: int
  SHARK_MODE :: int

text \<open>
  Modelled from the spec: \<^verbatim>\<open>self.get_ram()\<close> and \<^verbatim>\<open>self.set_ram(i, v)\<close> of the
  game environment, which are the environment's \<open>get_memory\<close> and \<open>set_memory\<close>.
\<close>

definition get_ram :: "'h ale \<Rightarrow> byte list" where
  "get_ram self = getRAM self"

definition set_ram :: "nat \<Rightarrow> int \<Rightarrow> 'h ale \<Rightarrow> error + 'h ale" where
  "set_ram idx v self = setRAM idx v self"

text \<open>
  \<^verbatim>\<open>alter_shark\<close>: four tests of \<^verbatim>\<open>SHARK_MODE\<close>, one after the other. In
  modes 3 and 4 the cell is read once, into \<^verbatim>\<open>current_x_position\<close>, and both
  tests look at that value.
\<close>

definition alter_shark :: "globals \<Rightarrow> 'h ale \<Rightarrow> error + 'h ale" where
  "alter_shark g self =
     (if SHARK_MODE g > 0 then
        and_then (if SHARK_MODE g = 1 then set_ram 75 105 self else Inr self) (\<lambda>self.
        and_then (if SHARK_MODE g = 2 then set_ram 75 25 self else Inr self) (\<lambda>self.
        and_then (if SHARK_MODE g = 3 then
           and_then (ram_at (get_ram self) 75) (\<lambda>current_x_position.
           and_then (if current_x_position = 100 then set_ram 75 25 self else Inr self) (\<lambda>self.
                    (if current_x_position = 30 then set_ram 75 105 self else Inr self)))
         else Inr self) (\<lambda>self.
        (if SHARK_MODE g = 4 then
           and_then (ram_at (get_ram self) 75) (\<lambda>current_x_position.
           and_then (if current_x_position < 120
                     then set_ram 75 (current_x_position + 5) self else Inr self) (\<lambda>self.
                    (if current_x_position > 120 then set_ram 75 1 self else Inr self)))
         else Inr self))))
      else Inr self)"

text \<open>
  \<^verbatim>\<open>alter_fish\<close>. Each mode is a loop \<^verbatim>\<open>for i in range(6)\<close> over the cells
  \<open>69 + i\<close>; the body of each loop is a function of its own, and the loop runs
  it over a list of indices. In mode 3 the cell is read again after the first
  test may have written it.
\<close>

definition fish_body1 :: "nat \<Rightarrow> 'h ale \<Rightarrow> error + 'h ale" where
  "fish_body1 i self =
     and_then (ram_at (get_ram self) (69 + i)) (\<lambda>v.
       if v > 86 then set_ram (69 + i) 44 self else Inr self)"

definition fish_body2 :: "nat \<Rightarrow> 'h ale \<Rightarrow> error + 'h ale" where
  "fish_body2 i self =
     and_then (ram_at (get_ram self) (69 + i)) (\<lambda>v.
       if v < 70 then set_ram (69 + i) 116 self else Inr self)"

definition fish_body3 :: "nat \<Rightarrow> 'h ale \<Rightarrow> error + 'h ale" where
  "fish_body3 i self =
     and_then (ram_at (get_ram self) (69 + i)) (\<lambda>v.
     and_then (if v < 70 then set_ram (69 + i) 86 self else Inr self) (\<lambda>self.
     and_then (ram_at (get_ram self) (69 + i)) (\<lambda>v.
       if v > 86 then set_ram (69 + i) 70 self else Inr self)))"

fun for_range :: "(nat \<Rightarrow> 's \<Rightarrow> error + 's) \<Rightarrow> nat list \<Rightarrow> 's \<Rightarrow> error + 's" where
  "for_range body [] s = Inr s"
| "for_range body (i # is) s = and_then (body i s) (for_range body is)"

definition alter_fish :: "globals \<Rightarrow> 'h ale \<Rightarrow> error + 'h ale" where
  "alter_fish g self =
     (if FISH_MODE g > 0 then
        and_then (if FISH_MODE g = 1 then for_range fish_body1 [0..<6] self else Inr self) (\<lambda>self.
        and_then (if FISH_MODE g = 2 then for_range fish_body2 [0..<6] self else Inr self) (\<lambda>self.
        (if FISH_MODE g = 3 then for_range fish_body3 [0..<6] self else Inr self)))
      else Inr self)"

text \<open>
  Python's \<^verbatim>\<open>int(s)\<close> on the strings this program hands to it: a string of
  decimal digits is read in base 10, and the empty string or a character that
  is no decimal digit raises \<^verbatim>\<open>ValueError\<close>. (Python also accepts a sign,
  surrounding blanks and underscores between digits, and digits outside ASCII;
  the two call sites pass a single character, or a string built from digit key
  presses, and strings are strings of 8-bit characters here.)
\<close>

definition digit_of :: "char \<Rightarrow> int option" where
  "digit_of c =
     (if (48 :: nat) \<le> of_char c \<and> of_char c \<le> (57 :: nat)
      then Some (int (of_char c) - 48) else None)"

fun int_digits :: "int \<Rightarrow> string \<Rightarrow> error + int" where
  "int_digits acc [] = Inr acc"
| "int_digits acc (c # cs) =
     (case digit_of c of None \<Rightarrow> Inl ValueError | Some d \<Rightarrow> int_digits (10 * acc + d) cs)"

definition py_int :: "string \<Rightarrow> error + int" where
  "py_int s = (if s = [] then Inl ValueError else int_digits 0 s)"

definition startswith :: "string \<Rightarrow> string \<Rightarrow> bool" where
  "startswith s prefix = (take (length prefix) s = prefix)"

text \<open>
  \<^verbatim>\<open>modif_funcs\<close> appends the function objects \<^verbatim>\<open>alter_fish\<close> and
  \<^verbatim>\<open>alter_shark\<close> to a list; a value of \<open>step_modif\<close> names one of the two, and
  \<open>run_modif\<close> calls the function it names.
\<close>

datatype step_modif = AlterFish | AlterShark

fun run_modif :: "step_modif \<Rightarrow> globals \<Rightarrow> 'h ale \<Rightarrow> error + 'h ale" where
  "run_modif AlterFish g self = alter_fish g self"
| "run_modif AlterShark g self = alter_shark g self"

text \<open>
  \<^verbatim>\<open>modif_funcs\<close>: the loop over \<^verbatim>\<open>modifs\<close> carries \<^verbatim>\<open>step_modifs\<close> and the
  two globals; the loop variable \<^verbatim>\<open>mod\<close> is \<open>modif\<close> here. \<^verbatim>\<open>mod[-1]\<close> raises
  \<^verbatim>\<open>IndexError\<close> on the empty string, and \<^verbatim>\<open>int\<close> is applied to that last
  character before the prefix is looked at.
\<close>

fun modif_loop ::
  "string list \<Rightarrow> step_modif list \<times> globals \<Rightarrow> error + step_modif list \<times> globals" where
  "modif_loop [] st = Inr st"
| "modif_loop (modif # modifs) (step_modifs, g) =
     (if modif = [] then Inl IndexError
      else and_then (py_int [last modif]) (\<lambda>mod_n.
        if startswith modif ''f''
          then modif_loop modifs (step_modifs @ [AlterFish], g\<lparr>FISH_MODE := mod_n\<rparr>)
        else if startswith modif ''s''
          then modif_loop modifs (step_modifs @ [AlterShark], g\<lparr>SHARK_MODE := mod_n\<rparr>)
        else modif_loop modifs (step_modifs, g)))"

definition modif_funcs ::
  "string list \<Rightarrow> globals \<Rightarrow> error + (step_modif list \<times> step_modif list) \<times> globals" where
  "modif_funcs modifs g =
     and_then (modif_loop modifs ([], g)) (\<lambda>(step_modifs, g').
       Inr ((step_modifs, []), g'))"

section \<open>rem\_gui.py\<close>

text \<open>
  What the GUI needs of the emulator beyond the memory accessors is taken as a
  parameter: \<open>env_step\<close> is \<^verbatim>\<open>self.env.step(0)\<close>, one no-op step, which may
  change the memory and the rest of the emulator state in any way;
  \<open>getScreenRGB emu a row col\<close> is the pixel of the frame buffer of state \<open>a\<close>, a
  \<open>frame_height \<times> frame_width\<close> array of RGB triples.
\<close>

record 'h emulator =
  env_step :: "'h ale \<Rightarrow> 'h ale"
  getScreenRGB :: "'h ale \<Rightarrow> nat \<Rightarrow> nat \<Rightarrow> rgb"
  frame_height :: nat
  frame_width :: nat

text \<open>
  \<^verbatim>\<open>ale.getScreenRGB()[y, x]\<close>: an index of an array axis of size \<open>n\<close> is valid
  from \<open>-n\<close> to \<open>n - 1\<close>, a negative one counting from the end, and raises
  \<^verbatim>\<open>IndexError\<close> otherwise.
\<close>

definition axis_index :: "nat \<Rightarrow> int \<Rightarrow> error + nat" where
  "axis_index n i =
     (if 0 \<le> i \<and> i < int n then Inr (nat i)
      else if - int n \<le> i \<and> i < 0 then Inr (nat (i + int n))
      else Inl IndexError)"

definition screen_at :: "'h emulator \<Rightarrow> 'h ale \<Rightarrow> int \<Rightarrow> int \<Rightarrow> error + rgb" where
  "screen_at emu a y x =
     and_then (axis_index (frame_height emu) y) (\<lambda>row.
     and_then (axis_index (frame_width emu) x) (\<lambda>col.
       Inr (getScreenRGB emu a row col)))"

text \<open>
  The fields of \<^verbatim>\<open>Renderer\<close> that the memory editing and the scan read or
  write. The window, the fonts and the layout are left out: \<^verbatim>\<open>_render()\<close> only
  draws, so it is the identity on these fields and is not written below.
\<close>

record 'h Renderer =
  env :: "'h ale"
  active_cell_idx :: "nat option"
  candidate_cell_ids :: "nat list"
  current_active_cell_input :: string

definition Renderer_get_ram_value_at :: "nat \<Rightarrow> 'h Renderer \<Rightarrow> error + int" where
  "Renderer_get_ram_value_at idx self = ram_at (getRAM (env self)) idx"

definition Renderer_set_ram_value_at :: "nat \<Rightarrow> int \<Rightarrow> 'h Renderer \<Rightarrow> error + 'h Renderer" where
  "Renderer_set_ram_value_at idx v self =
     and_then (setRAM idx v (env self)) (\<lambda>a. Inr (self\<lparr>env := a\<rparr>))"

text \<open>\<^verbatim>\<open>_set_ram\<close>: \<^verbatim>\<open>for k, value in enumerate(values): ale.setRAM(k, value)\<close>.\<close>

fun set_ram_loop :: "(nat \<times> byte) list \<Rightarrow> 'h ale \<Rightarrow> error + 'h ale" where
  "set_ram_loop [] a = Inr a"
| "set_ram_loop ((k, v) # kvs) a = and_then (setRAM k (uint v) a) (set_ram_loop kvs)"

definition Renderer_set_ram :: "byte list \<Rightarrow> 'h Renderer \<Rightarrow> error + 'h Renderer" where
  "Renderer_set_ram values self =
     and_then (set_ram_loop (enumerate 0 values) (env self)) (\<lambda>a. Inr (self\<lparr>env := a\<rparr>))"

text \<open>
  The cell read by \<^verbatim>\<open>_get_ram_value_at\<close> enters \<^verbatim>\<open>value + 1\<close> and
  \<^verbatim>\<open>value - 1\<close> as an integer, so that the sum of 255 and 1 is 256 and the
  difference of 0 and 1 is -1: NumPy's value-based promotion of an 8-bit scalar
  and a Python integer to a wide integer, with which \<^verbatim>\<open>min(..., 255)\<close> and
  \<^verbatim>\<open>max(..., 0)\<close> have something to clamp. (Under the promotion rules of
  NumPy 2 the sum would stay 8-bit and wrap before \<^verbatim>\<open>min\<close> and \<^verbatim>\<open>max\<close> see it;
  the source does not say which NumPy it runs on.)
\<close>

definition Renderer_increment_ram_value_at :: "nat \<Rightarrow> 'h Renderer \<Rightarrow> error + 'h Renderer" where
  "Renderer_increment_ram_value_at idx self =
     and_then (Renderer_get_ram_value_at idx self) (\<lambda>v.
       Renderer_set_ram_value_at idx (min (v + 1) 255) self)"

definition Renderer_decrement_ram_value_at :: "nat \<Rightarrow> 'h Renderer \<Rightarrow> error + 'h Renderer" where
  "Renderer_decrement_ram_value_at idx self =
     and_then (Renderer_get_ram_value_at idx self) (\<lambda>v.
       Renderer_set_ram_value_at idx (max (v - 1) 0) self)"

definition Renderer_unselect_active_cell :: "'h Renderer \<Rightarrow> 'h Renderer" where
  "Renderer_unselect_active_cell self =
     self\<lparr>active_cell_idx := None, current_active_cell_input := []\<rparr>"

text \<open>
  The branches of \<^verbatim>\<open>_handle_user_input\<close> that write memory: mouse buttons 4
  and 5 (the wheel) on the cell under the mouse, which \<^verbatim>\<open>_get_cell_under_mouse\<close>
  computes from the layout and is an argument here, and the return key on the
  active cell.
\<close>

definition mousewheel_up :: "nat option \<Rightarrow> 'h Renderer \<Rightarrow> error + 'h Renderer" where
  "mousewheel_up cell_idx self =
     (case cell_idx of None \<Rightarrow> Inr self
      | Some idx \<Rightarrow> Renderer_increment_ram_value_at idx self)"

definition mousewheel_down :: "nat option \<Rightarrow> 'h Renderer \<Rightarrow> error + 'h Renderer" where
  "mousewheel_down cell_idx self =
     (case cell_idx of None \<Rightarrow> Inr self
      | Some idx \<Rightarrow> Renderer_decrement_ram_value_at idx self)"

definition key_return :: "'h Renderer \<Rightarrow> error + 'h Renderer" where
  "key_return self =
     (case active_cell_idx self of None \<Rightarrow> Inr self
      | Some idx \<Rightarrow>
          and_then
            (if length (current_active_cell_input self) > 0 then
               and_then (py_int (current_active_cell_input self)) (\<lambda>new_cell_value.
                 if new_cell_value < 256
                 then Renderer_set_ram_value_at idx new_cell_value self
                 else Inr self)
             else Inr self)
            (\<lambda>self. Inr (Renderer_unselect_active_cell self)))"

text \<open>Python's \<^verbatim>\<open>str\<close> of an integer, in base 10.\<close>

definition digit_char :: "nat \<Rightarrow> char" where
  "digit_char d = char_of (48 + d)"

function str_nat :: "nat \<Rightarrow> string" where
  "str_nat n = (if n < 10 then [digit_char n] else str_nat (n div 10) @ [digit_char (n mod 10)])"
  by pat_completeness auto
termination
  by (relation "measure id") auto

declare str_nat.simps [simp del]

definition py_str :: "int \<Rightarrow> string" where
  "py_str i = (if i < 0 then CHR ''-'' # str_nat (nat (- i)) else str_nat (nat i))"

text \<open>
  \<^verbatim>\<open>find_causative_ram\<close>. The inner loop \<^verbatim>\<open>for altered_value in [0]\<close> is
  \<open>probe_loop\<close>, which the \<^verbatim>\<open>break\<close> leaves after the append; the outer loop
  over \<^verbatim>\<open>range(len(ram))\<close> is \<open>scan_loop\<close>. The pixel is read from the new frame
  before the memory is restored, as in the source.
\<close>

fun probe_loop ::
  "'h emulator \<Rightarrow> int \<Rightarrow> int \<Rightarrow> byte list \<Rightarrow> rgb \<Rightarrow> nat \<Rightarrow> int list \<Rightarrow> 'h Renderer
     \<Rightarrow> error + 'h Renderer" where
  "probe_loop emu x y ram original_pixel i [] self = Inr self"
| "probe_loop emu x y ram original_pixel i (altered_value # rest) self =
     (let self = self\<lparr>current_active_cell_input := py_str altered_value\<rparr> in
      and_then (setRAM i altered_value (env self)) (\<lambda>a.
      let a = env_step emu a in
      and_then (screen_at emu a y x) (\<lambda>new_pixel.
      and_then (Renderer_set_ram ram (self\<lparr>env := a\<rparr>)) (\<lambda>self.
        if new_pixel \<noteq> original_pixel
        then Inr (self\<lparr>candidate_cell_ids := candidate_cell_ids self @ [i]\<rparr>)
        else probe_loop emu x y ram original_pixel i rest self))))"

fun scan_loop ::
  "'h emulator \<Rightarrow> int \<Rightarrow> int \<Rightarrow> byte list \<Rightarrow> rgb \<Rightarrow> nat list \<Rightarrow> 'h Renderer
     \<Rightarrow> error + 'h Renderer" where
  "scan_loop emu x y ram original_pixel [] self = Inr self"
| "scan_loop emu x y ram original_pixel (i # is) self =
     and_then (probe_loop emu x y ram original_pixel i [0] (self\<lparr>active_cell_idx := Some i\<rparr>))
       (scan_loop emu x y ram original_pixel is)"

definition find_causative_ram ::
  "'h emulator \<Rightarrow> int \<Rightarrow> int \<Rightarrow> 'h Renderer \<Rightarrow> error + 'h Renderer" where
  "find_causative_ram emu x y self =
     (let ram = getRAM (env self);
          a = env_step emu (env self) in
      and_then (screen_at emu a y x) (\<lambda>original_pixel.
      and_then (Renderer_set_ram ram (self\<lparr>env := a\<rparr>)) (\<lambda>self.
      and_then (scan_loop emu x y ram original_pixel [0..<length ram]
                  (self\<lparr>candidate_cell_ids := []\<rparr>)) (\<lambda>self.
        Inr (Renderer_unselect_active_cell self)))))"

section \<open>Notions used to state and prove the properties\<close>

text \<open>
  The value that \<^verbatim>\<open>alter_shark\<close> leaves in cell 75, and the value that
  \<^verbatim>\<open>alter_fish\<close> leaves in one fish cell, as functions of the mode and of the
  value found there; \<open>fish_cells\<close> applies the latter to the cells \<open>69 + i\<close> for
  the indices \<open>i\<close> of a list. The lemmas below show that the two patchers
  compute these.
\<close>

definition shark_cell :: "int \<Rightarrow> byte \<Rightarrow> byte" where
  "shark_cell m v =
     (if m = 1 then 105 else if m = 2 then 25
      else if m = 3 then (if uint v = 100 then 25 else if uint v = 30 then 105 else v)
      else if m = 4 then (if uint v < 120 then v + 5 else if uint v > 120 then 1 else v)
      else v)"

definition fish_cell :: "int \<Rightarrow> byte \<Rightarrow> byte" where
  "fish_cell m v =
     (if m = 1 then (if uint v > 86 then 44 else v)
      else if m = 2 then (if uint v < 70 then 116 else v)
      else if m = 3 then (if uint v < 70 then 86 else if uint v > 86 then 70 else v)
      else v)"

definition fish_cells :: "int \<Rightarrow> nat list \<Rightarrow> byte list \<Rightarrow> byte list" where
  "fish_cells m is ram = fold (\<lambda>i r. r[69 + i := fish_cell m (r ! (69 + i))]) is ram"

text \<open>
  The emulator as the scan finds it when it reaches index \<open>i\<close>, starting from
  the emulator state \<open>ini\<close> of the call: the memory has been restored to the
  snapshot after every step, and the rest of the emulator state has gone
  through the \<open>i + 1\<close> steps taken so far (the reference step and one step per
  index already probed, each from the snapshot with that cell zeroed).
\<close>

fun scan_env :: "'h emulator \<Rightarrow> 'h ale \<Rightarrow> nat \<Rightarrow> 'h ale" where
  "scan_env emu ini 0 = (env_step emu ini)\<lparr>ale_ram := ale_ram ini\<rparr>"
| "scan_env emu ini (Suc i) =
     (env_step emu ((scan_env emu ini i)\<lparr>ale_ram := (ale_ram ini)[i := 0]\<rparr>))\<lparr>ale_ram := ale_ram ini\<rparr>"

text \<open>
  Two emulators to run the scan on. In \<open>parity_emu k\<close> a step changes nothing
  and every pixel shows the parity of cell \<open>k\<close>. In \<open>frame_count_emu\<close> the
  state outside the memory is a frame counter; a step increments the counter
  and every cell of the memory, and every pixel shows cell 0 and the parity of
  the counter.
\<close>

definition parity_emu :: "nat \<Rightarrow> unit emulator" where
  "parity_emu k =
     \<lparr>env_step = (\<lambda>a. a),
      getScreenRGB = (\<lambda>a row col. (ale_ram a ! k mod 2, 0, 0)),
      frame_height = 210, frame_width = 160\<rparr>"

definition frame_count_emu :: "nat emulator" where
  "frame_count_emu =
     \<lparr>env_step = (\<lambda>a. a\<lparr>ale_ram := map (\<lambda>v. v + 1) (ale_ram a),
                           ale_hidden := Suc (ale_hidden a)\<rparr>),
      getScreenRGB = (\<lambda>a row col. (ale_ram a ! 0, of_nat (ale_hidden a mod 2), 0)),
      frame_height = 210, frame_width = 160\<rparr>"

section \<open>Lemmas\<close>

lemma and_then_Inr [simp]: "and_then (Inr v) f = f v"
  by (simp add: and_then_def)

lemma and_then_Inl [simp]: "and_then (Inl e) f = Inl e"
  by (simp add: and_then_def)

lemma and_then_eq_Inr: "and_then m f = Inr r \<longleftrightarrow> (\<exists>v. m = Inr v \<and> f v = Inr r)"
  by (cases m) simp_all

lemma uint_byte_bounds: "0 \<le> uint (w :: byte) \<and> uint w \<le> 255"
  using uint_lt2p [of w] by simp

lemma setRAM_byte:
  "k < length (ale_ram a) \<Longrightarrow> setRAM k (uint (v :: byte)) a = Inr (a\<lparr>ale_ram := (ale_ram a)[k := v]\<rparr>)"
  using uint_byte_bounds [of v] by (simp add: setRAM_def)

lemma set_ram_loop_fits:
  "k + length vs \<le> length (ale_ram a) \<Longrightarrow>
   set_ram_loop (enumerate k vs) a =
     Inr (a\<lparr>ale_ram := take k (ale_ram a) @ vs @ drop (k + length vs) (ale_ram a)\<rparr>)"
proof (induction vs arbitrary: k a)
  case Nil
  then show ?case by simp
next
  case (Cons v vs)
  let ?a = "a\<lparr>ale_ram := (ale_ram a)[k := v]\<rparr>"
  have k: "k < length (ale_ram a)" using Cons.prems by simp
  have "set_ram_loop (enumerate (Suc k) vs) ?a =
          Inr (?a\<lparr>ale_ram := take (Suc k) (ale_ram ?a) @ vs @ drop (Suc k + length vs) (ale_ram ?a)\<rparr>)"
    using Cons.prems by (intro Cons.IH) simp
  moreover have "take (Suc k) ((ale_ram a)[k := v]) = take k (ale_ram a) @ [v]"
    using k by (simp add: take_Suc_conv_app_nth)
  ultimately show ?case
    using k by (simp add: setRAM_byte)
qed

lemma Renderer_set_ram_fits:
  "length (ale_ram (env self)) = length ram \<Longrightarrow>
   Renderer_set_ram ram self = Inr (self\<lparr>env := (env self)\<lparr>ale_ram := ram\<rparr>\<rparr>)"
  using set_ram_loop_fits [of 0 ram "env self"] by (simp add: Renderer_set_ram_def)

lemma Renderer_set_ram_candidates:
  "Renderer_set_ram ram self = Inr self' \<Longrightarrow> candidate_cell_ids self' = candidate_cell_ids self"
  by (auto simp add: Renderer_set_ram_def and_then_eq_Inr)

lemma probe_loop_candidates:
  "probe_loop emu x y ram px i avs self = Inr self' \<Longrightarrow>
   candidate_cell_ids self' = candidate_cell_ids self \<or>
   candidate_cell_ids self' = candidate_cell_ids self @ [i]"
proof (induction avs arbitrary: self)
  case Nil
  then show ?case by simp
next
  case (Cons av avs)
  from Cons.prems obtain a p s1 where
    s1: "Renderer_set_ram ram (self\<lparr>current_active_cell_input := py_str av, env := a\<rparr>) = Inr s1"
    and rest: "(if p \<noteq> px then Inr (s1\<lparr>candidate_cell_ids := candidate_cell_ids s1 @ [i]\<rparr>)
                else probe_loop emu x y ram px i avs s1) = Inr self'"
    by (auto simp add: Let_def and_then_eq_Inr)
  have c1: "candidate_cell_ids s1 = candidate_cell_ids self"
    using Renderer_set_ram_candidates [OF s1] by simp
  show ?case
  proof (cases "p \<noteq> px")
    case True
    with rest c1 show ?thesis by auto
  next
    case False
    with rest have "probe_loop emu x y ram px i avs s1 = Inr self'" by simp
    from Cons.IH [OF this] c1 show ?thesis by simp
  qed
qed

lemma scan_loop_sorted:
  "scan_loop emu x y ram px is self = Inr self' \<Longrightarrow>
   sorted_wrt (<) (candidate_cell_ids self @ is) \<Longrightarrow>
   sorted_wrt (<) (candidate_cell_ids self')"
proof (induction "is" arbitrary: self)
  case Nil
  then show ?case by simp
next
  case (Cons i "is")
  from Cons.prems(1) obtain s1 where
    p: "probe_loop emu x y ram px i [0] (self\<lparr>active_cell_idx := Some i\<rparr>) = Inr s1"
    and r: "scan_loop emu x y ram px is s1 = Inr self'"
    by (auto simp add: and_then_eq_Inr)
  from probe_loop_candidates [OF p]
  have "candidate_cell_ids s1 = candidate_cell_ids self \<or>
        candidate_cell_ids s1 = candidate_cell_ids self @ [i]" by simp
  with Cons.prems(2) have "sorted_wrt (<) (candidate_cell_ids s1 @ is)"
    by (auto simp add: sorted_wrt_append)
  with Cons.IH [OF r] show ?case .
qed

lemma find_causative_ram_sorted:
  assumes "find_causative_ram emu x y self = Inr self'"
  shows "sorted_wrt (<) (candidate_cell_ids self')"
proof -
  from assms obtain s1 s2 px where
    s2: "scan_loop emu x y (getRAM (env self)) px [0..<length (getRAM (env self))]
           (s1\<lparr>candidate_cell_ids := []\<rparr>) = Inr s2"
    and s': "self' = Renderer_unselect_active_cell s2"
    by (auto simp add: find_causative_ram_def Let_def and_then_eq_Inr)
  have "sorted_wrt (<) (candidate_cell_ids s2)"
    using scan_loop_sorted [OF s2] by simp
  then show ?thesis by (simp add: s' Renderer_unselect_active_cell_def)
qed


lemma ale_ram_scan_env [simp]: "ale_ram (scan_env emu ini i) = ale_ram ini"
  by (cases i) simp_all

lemma screen_at_ok:
  "axis_index (frame_height emu) y = Inr row \<Longrightarrow> axis_index (frame_width emu) x = Inr col \<Longrightarrow>
   screen_at emu a y x = Inr (getScreenRGB emu a row col)"
  by (simp add: screen_at_def)

lemma screen_at_bad:
  "axis_index (frame_height emu) y = Inl e \<or> axis_index (frame_width emu) x = Inl e \<Longrightarrow>
   \<exists>e'. screen_at emu a y x = Inl e'"
  by (cases "axis_index (frame_height emu) y") (auto simp add: screen_at_def)

lemma probe_loop_zero:
  assumes len: "\<forall>a. length (ale_ram (env_step emu a)) = length (ale_ram a)"
    and row: "axis_index (frame_height emu) y = Inr row"
    and col: "axis_index (frame_width emu) x = Inr col"
    and i: "i < length ram" and ram: "ale_ram (env self) = ram"
  shows "\<exists>s. probe_loop emu x y ram px i [0] self = Inr s \<and>
           env s = (env_step emu ((env self)\<lparr>ale_ram := ram[i := 0]\<rparr>))\<lparr>ale_ram := ram\<rparr> \<and>
           candidate_cell_ids s = candidate_cell_ids self @
             (if getScreenRGB emu (env_step emu ((env self)\<lparr>ale_ram := ram[i := 0]\<rparr>)) row col \<noteq> px
              then [i] else [])"
proof -
  let ?a = "env_step emu ((env self)\<lparr>ale_ram := ram[i := 0]\<rparr>)"
  let ?s = "self\<lparr>current_active_cell_input := py_str 0, env := ?a\<rparr>"
  have w: "setRAM i 0 (env self) = Inr ((env self)\<lparr>ale_ram := ram[i := 0]\<rparr>)"
    using i ram by (simp add: setRAM_def)
  have "length (ale_ram (env ?s)) = length ram"
    using len by simp
  from Renderer_set_ram_fits [OF this]
  have r: "Renderer_set_ram ram ?s = Inr (?s\<lparr>env := ?a\<lparr>ale_ram := ram\<rparr>\<rparr>)"
    by simp
  show ?thesis
    by (simp add: Let_def w screen_at_ok [OF row col] r)
qed

lemma scan_loop_upt:
  assumes len: "\<forall>a. length (ale_ram (env_step emu a)) = length (ale_ram a)"
    and row: "axis_index (frame_height emu) y = Inr row"
    and col: "axis_index (frame_width emu) x = Inr col"
    and n: "n \<le> length (ale_ram ini)"
  shows "k \<le> n \<Longrightarrow> env self = scan_env emu ini k \<Longrightarrow>
         \<exists>s. scan_loop emu x y (ale_ram ini) px [k..<n] self = Inr s \<and>
           env s = scan_env emu ini n \<and>
           candidate_cell_ids s = candidate_cell_ids self @
             filter (\<lambda>i. getScreenRGB emu
                 (env_step emu ((scan_env emu ini i)\<lparr>ale_ram := (ale_ram ini)[i := 0]\<rparr>)) row col \<noteq> px)
               [k..<n]"
proof (induction "n - k" arbitrary: k self)
  case 0
  then show ?case by simp
next
  case (Suc d)
  then have k: "k < n" by simp
  let ?self = "self\<lparr>active_cell_idx := Some k\<rparr>"
  have "k < length (ale_ram ini)" using k n by simp
  moreover have "ale_ram (env ?self) = ale_ram ini" using Suc.prems by simp
  ultimately obtain s1 where
    p: "probe_loop emu x y (ale_ram ini) px k [0] ?self = Inr s1"
    and e1: "env s1 = (env_step emu ((env ?self)\<lparr>ale_ram := (ale_ram ini)[k := 0]\<rparr>))\<lparr>ale_ram := ale_ram ini\<rparr>"
    and c1: "candidate_cell_ids s1 = candidate_cell_ids ?self @
             (if getScreenRGB emu (env_step emu ((env ?self)\<lparr>ale_ram := (ale_ram ini)[k := 0]\<rparr>)) row col \<noteq> px
              then [k] else [])"
    using probe_loop_zero [OF len row col, of k "ale_ram ini" ?self px] by blast
  have e1': "env s1 = scan_env emu ini (Suc k)"
    using e1 Suc.prems by simp
  have "d = n - Suc k" using Suc.hyps(2) by simp
  from Suc.hyps(1) [OF this _ e1'] k obtain s where
    s: "scan_loop emu x y (ale_ram ini) px [Suc k..<n] s1 = Inr s"
    and e: "env s = scan_env emu ini n"
    and c: "candidate_cell_ids s = candidate_cell_ids s1 @
             filter (\<lambda>i. getScreenRGB emu
                 (env_step emu ((scan_env emu ini i)\<lparr>ale_ram := (ale_ram ini)[i := 0]\<rparr>)) row col \<noteq> px)
               [Suc k..<n]"
    by auto
  show ?case
    using k p s e c c1 Suc.prems by (simp add: upt_conv_Cons)
qed

lemma find_causative_ram_scan:
  assumes len: "\<forall>a. length (ale_ram (env_step emu a)) = length (ale_ram a)"
    and row: "axis_index (frame_height emu) y = Inr row"
    and col: "axis_index (frame_width emu) x = Inr col"
  shows "\<exists>s. find_causative_ram emu x y self = Inr s \<and>
           env s = scan_env emu (env self) (length (ale_ram (env self))) \<and>
           active_cell_idx s = None \<and> current_active_cell_input s = [] \<and>
           candidate_cell_ids s =
             filter (\<lambda>i. getScreenRGB emu
                 (env_step emu ((scan_env emu (env self) i)\<lparr>ale_ram := (ale_ram (env self))[i := 0]\<rparr>))
                   row col \<noteq> getScreenRGB emu (env_step emu (env self)) row col)
               [0..<length (ale_ram (env self))]"
proof -
  let ?ini = "env self"
  let ?a = "env_step emu ?ini"
  let ?s1 = "self\<lparr>env := ?a\<lparr>ale_ram := ale_ram ?ini\<rparr>\<rparr>"
  have "length (ale_ram (env (self\<lparr>env := ?a\<rparr>))) = length (ale_ram ?ini)"
    using len by simp
  from Renderer_set_ram_fits [OF this]
  have r: "Renderer_set_ram (ale_ram ?ini) (self\<lparr>env := ?a\<rparr>) = Inr ?s1"
    by simp
  have "env (?s1\<lparr>candidate_cell_ids := []\<rparr>) = scan_env emu ?ini 0"
    by simp
  from scan_loop_upt [OF len row col, where n = "length (ale_ram ?ini)" and ini = ?ini and k = 0
      and self = "?s1\<lparr>candidate_cell_ids := []\<rparr>" and px = "getScreenRGB emu ?a row col"] this
  obtain s where s: "scan_loop emu x y (ale_ram ?ini) (getScreenRGB emu ?a row col)
                       [0..<length (ale_ram ?ini)] (?s1\<lparr>candidate_cell_ids := []\<rparr>) = Inr s"
    and e: "env s = scan_env emu ?ini (length (ale_ram ?ini))"
    and c: "candidate_cell_ids s =
             filter (\<lambda>i. getScreenRGB emu
                 (env_step emu ((scan_env emu ?ini i)\<lparr>ale_ram := (ale_ram ?ini)[i := 0]\<rparr>))
                   row col \<noteq> getScreenRGB emu ?a row col)
               [0..<length (ale_ram ?ini)]"
    by auto
  show ?thesis
    using s e c
    by (simp add: find_causative_ram_def Let_def getRAM_def screen_at_ok [OF row col] r
        Renderer_unselect_active_cell_def)
qed

lemma find_causative_ram_out_of_frame:
  assumes "axis_index (frame_height emu) y = Inl e \<or> axis_index (frame_width emu) x = Inl e"
  shows "\<exists>e'. find_causative_ram emu x y self = Inl e'"
  using screen_at_bad [OF assms, of "env_step emu (env self)"]
  by (auto simp add: find_causative_ram_def Let_def)

lemma uint_byte_of_int: "0 \<le> v \<Longrightarrow> v \<le> 255 \<Longrightarrow> uint (word_of_int v :: byte) = v"
  by (simp add: uint_word_of_int)

lemma set_ram_ok:
  "idx < length (ale_ram a) \<Longrightarrow> 0 \<le> v \<Longrightarrow> v \<le> 255 \<Longrightarrow>
   set_ram idx v a = Inr (a\<lparr>ale_ram := (ale_ram a)[idx := word_of_int v]\<rparr>)"
  by (simp add: set_ram_def setRAM_def)

lemma ram_at_ok: "idx < length ram \<Longrightarrow> ram_at ram idx = Inr (uint (ram ! idx))"
  by (simp add: ram_at_def)

lemma ram_at_bad: "\<not> idx < length ram \<Longrightarrow> ram_at ram idx = Inl IndexError"
  by (simp add: ram_at_def)

lemma uint_byte_plus5: "uint (w :: byte) < 120 \<Longrightarrow> uint (w + 5) = uint w + 5"
  using uint_byte_bounds [of w] by (simp add: uint_word_ariths)

lemma alter_shark_cell:
  assumes "75 < length (ale_ram a)"
  shows "alter_shark g a =
           Inr (a\<lparr>ale_ram := (ale_ram a)[75 := shark_cell (SHARK_MODE g) (ale_ram a ! 75)]\<rparr>)"
  using assms uint_byte_bounds [of "ale_ram a ! 75"]
  by (simp add: alter_shark_def shark_cell_def get_ram_def getRAM_def ram_at_ok set_ram_ok)

lemma alter_shark_short:
  assumes "\<not> 75 < length (ale_ram a)"
  shows "alter_shark g a = Inr a \<or> (\<exists>e. alter_shark g a = Inl e)"
  using assms
  by (simp add: alter_shark_def get_ram_def getRAM_def ram_at_bad set_ram_def setRAM_def)

lemma fish_body1_cell:
  "69 + i < length (ale_ram a) \<Longrightarrow>
   fish_body1 i a = Inr (a\<lparr>ale_ram := (ale_ram a)[69 + i := fish_cell 1 (ale_ram a ! (69 + i))]\<rparr>)"
  by (simp add: fish_body1_def fish_cell_def get_ram_def getRAM_def ram_at_ok set_ram_ok)

lemma fish_body2_cell:
  "69 + i < length (ale_ram a) \<Longrightarrow>
   fish_body2 i a = Inr (a\<lparr>ale_ram := (ale_ram a)[69 + i := fish_cell 2 (ale_ram a ! (69 + i))]\<rparr>)"
  by (simp add: fish_body2_def fish_cell_def get_ram_def getRAM_def ram_at_ok set_ram_ok)

lemma fish_body3_cell:
  "69 + i < length (ale_ram a) \<Longrightarrow>
   fish_body3 i a = Inr (a\<lparr>ale_ram := (ale_ram a)[69 + i := fish_cell 3 (ale_ram a ! (69 + i))]\<rparr>)"
  by (simp add: fish_body3_def fish_cell_def get_ram_def getRAM_def ram_at_ok set_ram_ok
      uint_byte_of_int)

lemma fish_body1_bad: "\<not> 69 + i < length (ale_ram a) \<Longrightarrow> fish_body1 i a = Inl IndexError"
  by (simp add: fish_body1_def get_ram_def getRAM_def ram_at_bad)

lemma fish_body2_bad: "\<not> 69 + i < length (ale_ram a) \<Longrightarrow> fish_body2 i a = Inl IndexError"
  by (simp add: fish_body2_def get_ram_def getRAM_def ram_at_bad)

lemma fish_body3_bad: "\<not> 69 + i < length (ale_ram a) \<Longrightarrow> fish_body3 i a = Inl IndexError"
  by (simp add: fish_body3_def get_ram_def getRAM_def ram_at_bad)

lemma length_fish_cells [simp]: "length (fish_cells m is ram) = length ram"
  by (induction "is" arbitrary: ram) (simp_all add: fish_cells_def)

lemma fish_cells_Nil [simp]: "fish_cells m [] ram = ram"
  by (simp add: fish_cells_def)

lemma fish_cells_Cons:
  "fish_cells m (i # is) ram = fish_cells m is (ram[69 + i := fish_cell m (ram ! (69 + i))])"
  by (simp add: fish_cells_def)

lemma nth_fish_cells:
  "distinct is \<Longrightarrow> \<forall>i\<in>set is. 69 + i < length ram \<Longrightarrow>
   fish_cells m is ram ! j =
     (if 69 \<le> j \<and> j - 69 \<in> set is then fish_cell m (ram ! j) else ram ! j)"
proof (induction "is" arbitrary: ram)
  case Nil
  then show ?case by simp
next
  case (Cons i "is")
  let ?r = "ram[69 + i := fish_cell m (ram ! (69 + i))]"
  have "fish_cells m is ?r ! j =
          (if 69 \<le> j \<and> j - 69 \<in> set is then fish_cell m (?r ! j) else ?r ! j)"
    using Cons.prems by (intro Cons.IH) simp_all
  then show ?case
    using Cons.prems by (auto simp add: fish_cells_Cons nth_list_update)
qed

lemma nth_fish_cells_six:
  assumes "74 < length ram"
  shows "fish_cells m [0..<6] ram ! j =
           (if 69 \<le> j \<and> j \<le> 74 then fish_cell m (ram ! j) else ram ! j)"
proof -
  have "\<forall>i\<in>set [0..<6]. 69 + i < length ram" using assms by auto
  then have "fish_cells m [0..<6] ram ! j =
     (if 69 \<le> j \<and> j - 69 \<in> set [0..<6] then fish_cell m (ram ! j) else ram ! j)"
    by (intro nth_fish_cells) simp_all
  moreover have "(69 \<le> j \<and> j - 69 \<in> set [0..<6]) = (69 \<le> j \<and> j \<le> 74)" by auto
  ultimately show ?thesis by simp
qed

lemma for_range_cells:
  assumes body: "\<And>i a. 69 + i < length (ale_ram a) \<Longrightarrow>
             body i a = Inr (a\<lparr>ale_ram := (ale_ram a)[69 + i := fish_cell m (ale_ram a ! (69 + i))]\<rparr>)"
    and ok: "\<forall>i\<in>set is. 69 + i < length (ale_ram a)"
  shows "for_range body is a = Inr (a\<lparr>ale_ram := fish_cells m is (ale_ram a)\<rparr>)"
  using ok
proof (induction "is" arbitrary: a)
  case Nil
  then show ?case by simp
next
  case (Cons i "is")
  then show ?case by (simp add: body fish_cells_Cons)
qed

lemma for_range_short:
  assumes body: "\<And>i a. 69 + i < length (ale_ram a) \<Longrightarrow>
             body i a = Inr (a\<lparr>ale_ram := (ale_ram a)[69 + i := fish_cell m (ale_ram a ! (69 + i))]\<rparr>)"
    and bad: "\<And>i a. \<not> 69 + i < length (ale_ram a) \<Longrightarrow> body i a = Inl IndexError"
    and ex: "\<exists>i\<in>set is. \<not> 69 + i < length (ale_ram a)"
  shows "for_range body is a = Inl IndexError"
  using ex
proof (induction "is" arbitrary: a)
  case Nil
  then show ?case by simp
next
  case (Cons i "is")
  show ?case
  proof (cases "69 + i < length (ale_ram a)")
    case True
    with Cons.prems have "\<exists>k\<in>set is. \<not> 69 + k < length (ale_ram a)" by auto
    then show ?thesis using True Cons.IH by (simp add: body)
  next
    case False
    then show ?thesis by (simp add: bad)
  qed
qed

lemma alter_fish_cells:
  assumes "74 < length (ale_ram a)"
  shows "alter_fish g a = Inr (a\<lparr>ale_ram := fish_cells (FISH_MODE g) [0..<6] (ale_ram a)\<rparr>)"
proof -
  have ok: "\<forall>i\<in>set [0..<6]. 69 + i < length (ale_ram a)"
    using assms by auto
  have id: "fish_cells k [0..<6] (ale_ram a) = ale_ram a" if "k \<noteq> 1" "k \<noteq> 2" "k \<noteq> 3" for k
    using assms that by (intro nth_equalityI) (simp_all add: nth_fish_cells_six fish_cell_def)
  show ?thesis
    using for_range_cells [OF fish_body1_cell ok] for_range_cells [OF fish_body2_cell ok]
      for_range_cells [OF fish_body3_cell ok] id [of "FISH_MODE g"]
    by (simp add: alter_fish_def)
qed

lemma alter_fish_short:
  assumes "\<not> 74 < length (ale_ram a)"
  shows "alter_fish g a = Inr a \<or> alter_fish g a = Inl IndexError"
proof -
  have ex: "\<exists>i\<in>set [0..<6]. \<not> 69 + i < length (ale_ram a)"
    using assms by (auto intro: bexI [of _ 5])
  show ?thesis
    using for_range_short [OF fish_body1_cell fish_body1_bad ex]
      for_range_short [OF fish_body2_cell fish_body2_bad ex]
      for_range_short [OF fish_body3_cell fish_body3_bad ex]
    by (simp add: alter_fish_def)
qed

lemma fish_cell_idem: "fish_cell m (fish_cell m v) = fish_cell m v"
  by (simp add: fish_cell_def)

lemma shark_cell_idem: "m \<noteq> 4 \<Longrightarrow> shark_cell m (shark_cell m v) = shark_cell m v"
  by (simp add: shark_cell_def)

lemma uint_shark_cell_ramp:
  "uint (shark_cell 4 v) =
     (if uint v < 120 then uint v + 5 else if uint v > 120 then 1 else uint v)"
  by (simp add: shark_cell_def uint_byte_plus5)

lemma shark_cell_ramp_twice:
  "shark_cell 4 (shark_cell 4 v) = shark_cell 4 v \<longleftrightarrow> uint v = 115 \<or> uint v = 120"
proof -
  have "shark_cell 4 (shark_cell 4 v) = shark_cell 4 v \<longleftrightarrow>
        uint (shark_cell 4 (shark_cell 4 v)) = uint (shark_cell 4 v)"
    by (simp add: word_uint_eq_iff)
  also have "\<dots> \<longleftrightarrow> uint v = 115 \<or> uint v = 120"
    by (simp add: uint_shark_cell_ramp)
  finally show ?thesis .
qed

lemma ale_ram_update_eq: "(a\<lparr>ale_ram := u\<rparr> = a\<lparr>ale_ram := w\<rparr>) = (u = w)"
proof
  assume "a\<lparr>ale_ram := u\<rparr> = a\<lparr>ale_ram := w\<rparr>"
  then have "ale_ram (a\<lparr>ale_ram := u\<rparr>) = ale_ram (a\<lparr>ale_ram := w\<rparr>)"
    by (rule arg_cong)
  then show "u = w" by simp
next
  assume "u = w"
  then show "a\<lparr>ale_ram := u\<rparr> = a\<lparr>ale_ram := w\<rparr>" by simp
qed

lemma alter_fish_twice:
  "and_then (alter_fish g a) (alter_fish g) = alter_fish g a"
proof (cases "74 < length (ale_ram a)")
  case True
  have "fish_cells (FISH_MODE g) [0..<6] (fish_cells (FISH_MODE g) [0..<6] (ale_ram a)) =
        fish_cells (FISH_MODE g) [0..<6] (ale_ram a)"
    using True by (intro nth_equalityI) (simp_all add: nth_fish_cells_six fish_cell_idem)
  then show ?thesis
    using True by (simp add: alter_fish_cells)
next
  case False
  from alter_fish_short [OF this, of g] show ?thesis by auto
qed

lemma alter_shark_twice_eq:
  assumes "75 < length (ale_ram a)"
  shows "(and_then (alter_shark g a) (alter_shark g) = alter_shark g a) =
         (shark_cell (SHARK_MODE g) (shark_cell (SHARK_MODE g) (ale_ram a ! 75)) =
          shark_cell (SHARK_MODE g) (ale_ram a ! 75))"
proof -
  have "(xs[75 := u] = xs[75 := w]) = (u = w)" if "75 < length xs" for xs :: "byte list" and u w
    using that by (metis nth_list_update_eq)
  then show ?thesis
    using assms by (simp add: alter_shark_cell ale_ram_update_eq)
qed

lemma alter_shark_twice:
  assumes "SHARK_MODE g \<noteq> 4"
  shows "and_then (alter_shark g a) (alter_shark g) = alter_shark g a"
proof (cases "75 < length (ale_ram a)")
  case True
  then show ?thesis using assms by (simp add: alter_shark_twice_eq shark_cell_idem)
next
  case False
  from alter_shark_short [OF this, of g] show ?thesis by auto
qed

lemma list_update_cell_eq: "i < length xs \<Longrightarrow> (xs[i := u] = xs[i := w]) = (u = w)"
  by (metis nth_list_update_eq)

lemma fish_cells_shark_cell_commute:
  assumes "75 < length r"
  shows "fish_cells m [0..<6] (r[75 := shark_cell k (r ! 75)]) =
         (fish_cells m [0..<6] r)[75 := shark_cell k (fish_cells m [0..<6] r ! 75)]"
  using assms
  by (intro nth_equalityI) (simp_all add: nth_fish_cells_six nth_list_update)

lemma axis_index_inside: "0 \<le> i \<Longrightarrow> i < int n \<Longrightarrow> axis_index n i = Inr (nat i)"
  by (simp add: axis_index_def)

lemma scan_env_memory_only:
  assumes "\<forall>a b. ale_ram a = ale_ram b \<longrightarrow>
             getScreenRGB emu (env_step emu a) = getScreenRGB emu (env_step emu b)"
  shows "getScreenRGB emu (env_step emu ((scan_env emu ini i)\<lparr>ale_ram := ram\<rparr>)) =
         getScreenRGB emu (env_step emu (ini\<lparr>ale_ram := ram\<rparr>))"
  using assms by simp

lemma probe_loop_subset:
  "probe_loop emu x y ram px i avs self = Inr self' \<Longrightarrow>
   set (candidate_cell_ids self') \<subseteq> set (candidate_cell_ids self) \<union> {i}"
  using probe_loop_candidates [of emu x y ram px i avs self self'] by auto

lemma scan_loop_subset:
  "scan_loop emu x y ram px is self = Inr self' \<Longrightarrow>
   set (candidate_cell_ids self') \<subseteq> set (candidate_cell_ids self) \<union> set is"
proof (induction "is" arbitrary: self)
  case Nil
  then show ?case by simp
next
  case (Cons i "is")
  from Cons.prems obtain s1 where
    p: "probe_loop emu x y ram px i [0] (self\<lparr>active_cell_idx := Some i\<rparr>) = Inr s1"
    and r: "scan_loop emu x y ram px is s1 = Inr self'"
    by (auto simp add: and_then_eq_Inr)
  from probe_loop_subset [OF p] Cons.IH [OF r] show ?case by auto
qed

lemma find_causative_ram_subset:
  assumes "find_causative_ram emu x y self = Inr self'"
  shows "set (candidate_cell_ids self') \<subseteq> {0..<length (getRAM (env self))}"
proof -
  from assms obtain s1 s2 px where
    s2: "scan_loop emu x y (getRAM (env self)) px [0..<length (getRAM (env self))]
           (s1\<lparr>candidate_cell_ids := []\<rparr>) = Inr s2"
    and s': "self' = Renderer_unselect_active_cell s2"
    by (auto simp add: find_causative_ram_def Let_def and_then_eq_Inr)
  from scan_loop_subset [OF s2] show ?thesis
    by (simp add: s' Renderer_unselect_active_cell_def)
qed

lemma digit_of_nonneg: "digit_of c = Some d \<Longrightarrow> 0 \<le> d"
  by (auto simp add: digit_of_def split: if_splits)

lemma int_digits_nonneg: "int_digits acc s = Inr n \<Longrightarrow> 0 \<le> acc \<Longrightarrow> 0 \<le> n"
proof (induction s arbitrary: acc)
  case Nil
  then show ?case by simp
next
  case (Cons c cs)
  then obtain d where d: "digit_of c = Some d" and r: "int_digits (10 * acc + d) cs = Inr n"
    by (auto split: option.splits)
  from digit_of_nonneg [OF d] Cons.prems(2) have "0 \<le> 10 * acc + d" by simp
  from Cons.IH [OF r this] show ?case .
qed

lemma py_int_nonneg: "py_int s = Inr n \<Longrightarrow> 0 \<le> n"
  using int_digits_nonneg [of 0 s n] by (simp add: py_int_def split: if_splits)

lemma int_digits_error: "int_digits acc s = Inl e \<Longrightarrow> e = ValueError"
  by (induction s arbitrary: acc) (auto split: option.splits)

lemma py_int_error: "py_int s = Inl e \<Longrightarrow> e = ValueError"
  using int_digits_error [of 0 s e] by (simp add: py_int_def split: if_splits)

lemma py_int_nonempty: "py_int s = Inr n \<Longrightarrow> 0 < length s"
  by (simp add: py_int_def split: if_splits)

lemma Renderer_set_ram_value_at_ok:
  "idx < length (ale_ram (env self)) \<Longrightarrow> 0 \<le> v \<Longrightarrow> v \<le> 255 \<Longrightarrow>
   Renderer_set_ram_value_at idx v self =
     Inr (self\<lparr>env := (env self)\<lparr>ale_ram := (ale_ram (env self))[idx := word_of_int v]\<rparr>\<rparr>)"
  by (simp add: Renderer_set_ram_value_at_def setRAM_def)

lemma Renderer_set_ram_value_at_value:
  "0 \<le> v \<Longrightarrow> v \<le> 255 \<Longrightarrow> Renderer_set_ram_value_at idx v self \<noteq> Inl InvalidMemoryValue"
  by (simp add: Renderer_set_ram_value_at_def setRAM_def)

lemma Renderer_increment_ok:
  assumes "idx < length (ale_ram (env self))"
  shows "\<exists>self'. Renderer_increment_ram_value_at idx self = Inr self' \<and>
           length (ale_ram (env self')) = length (ale_ram (env self)) \<and>
           uint (ale_ram (env self') ! idx) = min (uint (ale_ram (env self) ! idx) + 1) 255"
  using assms uint_byte_bounds [of "ale_ram (env self) ! idx"]
  by (simp add: Renderer_increment_ram_value_at_def Renderer_get_ram_value_at_def getRAM_def
      ram_at_ok Renderer_set_ram_value_at_ok uint_byte_of_int)

lemma Renderer_decrement_ok:
  assumes "idx < length (ale_ram (env self))"
  shows "\<exists>self'. Renderer_decrement_ram_value_at idx self = Inr self' \<and>
           length (ale_ram (env self')) = length (ale_ram (env self)) \<and>
           uint (ale_ram (env self') ! idx) = max (uint (ale_ram (env self) ! idx) - 1) 0"
  using assms uint_byte_bounds [of "ale_ram (env self) ! idx"]
  by (simp add: Renderer_decrement_ram_value_at_def Renderer_get_ram_value_at_def getRAM_def
      ram_at_ok Renderer_set_ram_value_at_ok uint_byte_of_int)

lemma Renderer_increment_value:
  "Renderer_increment_ram_value_at idx self \<noteq> Inl InvalidMemoryValue"
proof (cases "idx < length (ale_ram (env self))")
  case True
  from Renderer_increment_ok [OF this] show ?thesis by auto
next
  case False
  then show ?thesis
    by (simp add: Renderer_increment_ram_value_at_def Renderer_get_ram_value_at_def getRAM_def
        ram_at_bad)
qed

lemma Renderer_decrement_value:
  "Renderer_decrement_ram_value_at idx self \<noteq> Inl InvalidMemoryValue"
proof (cases "idx < length (ale_ram (env self))")
  case True
  from Renderer_decrement_ok [OF this] show ?thesis by auto
next
  case False
  then show ?thesis
    by (simp add: Renderer_decrement_ram_value_at_def Renderer_get_ram_value_at_def getRAM_def
        ram_at_bad)
qed

lemma key_return_value: "key_return self \<noteq> Inl InvalidMemoryValue"
proof (cases "active_cell_idx self")
  case None
  then show ?thesis by (simp add: key_return_def)
next
  case (Some idx)
  show ?thesis
  proof (cases "py_int (current_active_cell_input self)")
    case (Inl e)
    with py_int_error [OF Inl] Some show ?thesis by (simp add: key_return_def)
  next
    case (Inr n)
    show ?thesis
    proof (cases "n < 256")
      case True
      with py_int_nonneg [OF Inr] have "0 \<le> n" "n \<le> 255" by simp_all
      from Renderer_set_ram_value_at_value [OF this, of idx self]
      show ?thesis
        using Some Inr True
        by (cases "Renderer_set_ram_value_at idx n self") (simp_all add: key_return_def)
    next
      case False
      with Some Inr show ?thesis by (simp add: key_return_def)
    qed
  qed
qed

lemma py_int_digit: "digit_of c = Some d \<Longrightarrow> py_int [c] = Inr d"
  by (simp add: py_int_def)

lemma py_int_no_digit: "digit_of c = None \<Longrightarrow> py_int [c] = Inl ValueError"
  by (simp add: py_int_def)

lemma startswith_f_not_s: "startswith m ''f'' \<Longrightarrow> \<not> startswith m ''s''"
  by (cases m) (simp_all add: startswith_def)

lemma modif_loop_well_formed:
  assumes "\<forall>m\<in>set ms. m \<noteq> [] \<and> digit_of (last m) \<noteq> None"
  shows "\<exists>g'. modif_loop ms (steps, g) =
           Inr (steps @ concat (map (\<lambda>m. if startswith m ''f'' then [AlterFish]
                                       else if startswith m ''s'' then [AlterShark] else []) ms), g') \<and>
           (filter (\<lambda>m. startswith m ''f'') ms = [] \<longrightarrow> FISH_MODE g' = FISH_MODE g) \<and>
           (filter (\<lambda>m. startswith m ''f'') ms \<noteq> [] \<longrightarrow>
              digit_of (last (last (filter (\<lambda>m. startswith m ''f'') ms))) = Some (FISH_MODE g')) \<and>
           (filter (\<lambda>m. startswith m ''s'') ms = [] \<longrightarrow> SHARK_MODE g' = SHARK_MODE g) \<and>
           (filter (\<lambda>m. startswith m ''s'') ms \<noteq> [] \<longrightarrow>
              digit_of (last (last (filter (\<lambda>m. startswith m ''s'') ms))) = Some (SHARK_MODE g'))"
  using assms
proof (induction ms arbitrary: steps g)
  case Nil
  then show ?case by simp
next
  case (Cons m ms)
  then obtain d where m: "m \<noteq> []" and d: "digit_of (last m) = Some d"
    by auto
  have rest: "\<forall>m\<in>set ms. m \<noteq> [] \<and> digit_of (last m) \<noteq> None"
    using Cons.prems by simp
  show ?case
  proof (cases "startswith m ''f''")
    case True
    from Cons.IH [OF rest, of "steps @ [AlterFish]" "g\<lparr>FISH_MODE := d\<rparr>"]
    show ?thesis
      using m d True startswith_f_not_s [OF True]
      by (auto simp add: py_int_digit)
  next
    case False
    show ?thesis
    proof (cases "startswith m ''s''")
      case True
      from Cons.IH [OF rest, of "steps @ [AlterShark]" "g\<lparr>SHARK_MODE := d\<rparr>"]
      show ?thesis
        using m d True False
        by (auto simp add: py_int_digit)
    next
      case nos: False
      from Cons.IH [OF rest, of steps g]
      show ?thesis
        using m d False nos
        by (auto simp add: py_int_digit)
    qed
  qed
qed

lemma modif_loop_ill_formed:
  assumes "\<exists>m\<in>set ms. m = [] \<or> digit_of (last m) = None"
  shows "\<exists>e. modif_loop ms (steps, g) = Inl e"
  using assms
proof (induction ms arbitrary: steps g)
  case Nil
  then show ?case by simp
next
  case (Cons m ms)
  show ?case
  proof (cases "m = [] \<or> digit_of (last m) = None")
    case True
    then show ?thesis by (auto simp add: py_int_no_digit)
  next
    case False
    then obtain d where m: "m \<noteq> []" and d: "digit_of (last m) = Some d"
      by auto
    from False Cons.prems have "\<exists>m\<in>set ms. m = [] \<or> digit_of (last m) = None"
      by auto
    from Cons.IH [OF this] show ?thesis
      using m d by (simp add: py_int_digit)
  qed
qed

text \<open>
  On \<open>frame_count_emu\<close> the scan restores the memory that every step has
  changed, and it reports cell 2, which no pixel depends on: the frame counter,
  which restoring the memory does not put back, has another parity at that
  probe than at the reference step. Zeroing cell 2 in the state of the call and
  taking one step gives the reference pixel. The scan is therefore described
  through \<open>scan_env\<close>, the emulator as it is at each probe.
\<close>

lemma find_causative_ram_frame_count_emu:
  "find_causative_ram frame_count_emu 2 1
     \<lparr>env = \<lparr>ale_ram = [5, 7, 9], ale_hidden = 0\<rparr>, active_cell_idx = None,
      candidate_cell_ids = [], current_active_cell_input = []\<rparr> =
   Inr \<lparr>env = \<lparr>ale_ram = [5, 7, 9], ale_hidden = 4\<rparr>, active_cell_idx = None,
        candidate_cell_ids = [0, 2], current_active_cell_input = []\<rparr> \<and>
   getScreenRGB frame_count_emu
     (env_step frame_count_emu \<lparr>ale_ram = [5, 7, 9][2 := 0], ale_hidden = 0\<rparr>) 1 2 =
   getScreenRGB frame_count_emu
     (env_step frame_count_emu \<lparr>ale_ram = [5, 7, 9], ale_hidden = 0\<rparr>) 1 2"
  by code_simp

section \<open>The properties\<close>

text \<open>
  Claim C1. Let the emulator keep the size of its memory across a step, and let
  \<open>(x, y)\<close> lie inside the frame. Then \<^verbatim>\<open>find_causative_ram\<close> returns, and an
  index \<open>i\<close> is in the candidate list it leaves if and only if \<open>i\<close> is an index of
  the memory and the pixel at \<open>(x, y)\<close> after writing 0 to cell \<open>i\<close> and taking one
  no-op step differs from the reference pixel, the pixel after one no-op step
  from the state of the call. The value written is 0 and no other. The write
  and the step happen in the emulator as the scan finds it at index \<open>i\<close>
  (\<open>scan_env\<close>): its memory is the snapshot, as the second conjunct says, while
  the emulator state outside the memory, which \<^verbatim>\<open>_set_ram\<close> does not restore,
  is the one reached by the steps taken so far. When the frame after a step
  depends on the memory alone, this is the same as writing 0 to cell \<open>i\<close> of the
  state of the call, which is the last conjunct.
\<close>

theorem find_causative_ram_candidates:
  assumes len: "\<forall>a. length (getRAM (env_step emu a)) = length (getRAM a)"
    and x: "0 \<le> x \<and> x < int (frame_width emu)"
    and y: "0 \<le> y \<and> y < int (frame_height emu)"
  shows "\<exists>self'. find_causative_ram emu x y self = Inr self' \<and>
    (\<forall>i. i \<in> set (candidate_cell_ids self') \<longleftrightarrow>
           i < length (getRAM (env self)) \<and>
           getScreenRGB emu
             (env_step emu ((scan_env emu (env self) i)\<lparr>ale_ram := (getRAM (env self))[i := 0]\<rparr>))
             (nat y) (nat x)
           \<noteq> getScreenRGB emu (env_step emu (env self)) (nat y) (nat x)) \<and>
    (\<forall>i. getRAM (scan_env emu (env self) i) = getRAM (env self)) \<and>
    ((\<forall>a b. getRAM a = getRAM b \<longrightarrow>
         getScreenRGB emu (env_step emu a) = getScreenRGB emu (env_step emu b)) \<longrightarrow>
     (\<forall>i. i \<in> set (candidate_cell_ids self') \<longleftrightarrow>
           i < length (getRAM (env self)) \<and>
           getScreenRGB emu
             (env_step emu ((env self)\<lparr>ale_ram := (getRAM (env self))[i := 0]\<rparr>))
             (nat y) (nat x)
           \<noteq> getScreenRGB emu (env_step emu (env self)) (nat y) (nat x)))"
proof -
  have len': "\<forall>a. length (ale_ram (env_step emu a)) = length (ale_ram a)"
    using len by (simp add: getRAM_def)
  have row: "axis_index (frame_height emu) y = Inr (nat y)"
    using y by (simp add: axis_index_inside)
  have col: "axis_index (frame_width emu) x = Inr (nat x)"
    using x by (simp add: axis_index_inside)
  from find_causative_ram_scan [OF len' row col, of self] obtain s where
    s: "find_causative_ram emu x y self = Inr s"
    and c: "candidate_cell_ids s =
             filter (\<lambda>i. getScreenRGB emu
                 (env_step emu ((scan_env emu (env self) i)\<lparr>ale_ram := (ale_ram (env self))[i := 0]\<rparr>))
                   (nat y) (nat x) \<noteq> getScreenRGB emu (env_step emu (env self)) (nat y) (nat x))
               [0..<length (ale_ram (env self))]"
    by (elim exE conjE)
  have one: "\<forall>i. i \<in> set (candidate_cell_ids s) \<longleftrightarrow>
           i < length (getRAM (env self)) \<and>
           getScreenRGB emu
             (env_step emu ((scan_env emu (env self) i)\<lparr>ale_ram := (getRAM (env self))[i := 0]\<rparr>))
             (nat y) (nat x)
           \<noteq> getScreenRGB emu (env_step emu (env self)) (nat y) (nat x)"
    by (simp add: c getRAM_def)
  have two: "\<forall>i. getRAM (scan_env emu (env self) i) = getRAM (env self)"
    by (simp add: getRAM_def)
  have three: "\<forall>i. i \<in> set (candidate_cell_ids s) \<longleftrightarrow>
           i < length (getRAM (env self)) \<and>
           getScreenRGB emu
             (env_step emu ((env self)\<lparr>ale_ram := (getRAM (env self))[i := 0]\<rparr>))
             (nat y) (nat x)
           \<noteq> getScreenRGB emu (env_step emu (env self)) (nat y) (nat x)"
    if m: "\<forall>a b. getRAM a = getRAM b \<longrightarrow>
         getScreenRGB emu (env_step emu a) = getScreenRGB emu (env_step emu b)"
  proof -
    have m': "\<forall>a b. ale_ram a = ale_ram b \<longrightarrow>
             getScreenRGB emu (env_step emu a) = getScreenRGB emu (env_step emu b)"
      using m unfolding getRAM_def .
    show ?thesis
      using one by (simp add: scan_env_memory_only [OF m'])
  qed
  from three have three':
    "(\<forall>a b. getRAM a = getRAM b \<longrightarrow>
         getScreenRGB emu (env_step emu a) = getScreenRGB emu (env_step emu b)) \<longrightarrow>
     (\<forall>i. i \<in> set (candidate_cell_ids s) \<longleftrightarrow>
           i < length (getRAM (env self)) \<and>
           getScreenRGB emu
             (env_step emu ((env self)\<lparr>ale_ram := (getRAM (env self))[i := 0]\<rparr>))
             (nat y) (nat x)
           \<noteq> getScreenRGB emu (env_step emu (env self)) (nat y) (nat x))"
    by (rule impI)
  show ?thesis
    using s one two three' by - (rule exI [of _ s], intro conjI, assumption+)
qed

theorem find_causative_ram_candidates_witness:
  "\<exists>self'. find_causative_ram (parity_emu 1) 2 1
     \<lparr>env = \<lparr>ale_ram = [5, 7, 9], ale_hidden = ()\<rparr>, active_cell_idx = None,
      candidate_cell_ids = [7, 7], current_active_cell_input = ''12''\<rparr> = Inr self' \<and>
     set (candidate_cell_ids self') = {1}"
proof -
  let ?emu = "parity_emu 1"
  let ?self = "\<lparr>env = \<lparr>ale_ram = [5, 7, 9], ale_hidden = ()\<rparr>, active_cell_idx = None,
      candidate_cell_ids = [7, 7], current_active_cell_input = ''12''\<rparr>"
  have len: "\<forall>a. length (getRAM (env_step ?emu a)) = length (getRAM a)"
    by (simp add: parity_emu_def)
  have x: "0 \<le> (2 :: int) \<and> 2 < int (frame_width ?emu)"
    and y: "0 \<le> (1 :: int) \<and> 1 < int (frame_height ?emu)"
    by (simp_all add: parity_emu_def)
  have mem: "\<forall>a b. getRAM a = getRAM b \<longrightarrow>
         getScreenRGB ?emu (env_step ?emu a) = getScreenRGB ?emu (env_step ?emu b)"
    by (simp add: parity_emu_def getRAM_def)
  from find_causative_ram_candidates [OF len x y, of ?self] obtain self' where
    r: "find_causative_ram ?emu 2 1 ?self = Inr self'"
    and c: "(\<forall>a b. getRAM a = getRAM b \<longrightarrow>
         getScreenRGB ?emu (env_step ?emu a) = getScreenRGB ?emu (env_step ?emu b)) \<longrightarrow>
     (\<forall>i. i \<in> set (candidate_cell_ids self') \<longleftrightarrow>
           i < length (getRAM (env ?self)) \<and>
           getScreenRGB ?emu
             (env_step ?emu ((env ?self)\<lparr>ale_ram := (getRAM (env ?self))[i := 0]\<rparr>))
             (nat 1) (nat 2)
           \<noteq> getScreenRGB ?emu (env_step ?emu (env ?self)) (nat 1) (nat 2))"
    by (elim exE conjE)
  from c mem have "\<forall>i. i \<in> set (candidate_cell_ids self') \<longleftrightarrow>
           i < length (getRAM (env ?self)) \<and>
           getScreenRGB ?emu
             (env_step ?emu ((env ?self)\<lparr>ale_ram := (getRAM (env ?self))[i := 0]\<rparr>))
             (nat 1) (nat 2)
           \<noteq> getScreenRGB ?emu (env_step ?emu (env ?self)) (nat 1) (nat 2)"
    by (rule mp)
  then have q: "i \<in> set (candidate_cell_ids self') \<longleftrightarrow>
           i < length (getRAM (env ?self)) \<and>
           getScreenRGB ?emu
             (env_step ?emu ((env ?self)\<lparr>ale_ram := (getRAM (env ?self))[i := 0]\<rparr>))
             (nat 1) (nat 2)
           \<noteq> getScreenRGB ?emu (env_step ?emu (env ?self)) (nat 1) (nat 2)" for i
    by (rule spec)
  have "i \<in> set (candidate_cell_ids self') \<longleftrightarrow> i = 1" for i
  proof (cases "i < 3")
    case True
    then consider "i = 0" | "i = 1" | "i = 2" by linarith
    then show ?thesis
      using q [of i] by cases (simp_all add: parity_emu_def getRAM_def)
  next
    case False
    then show ?thesis using q [of i] by (simp add: getRAM_def)
  qed
  then have "set (candidate_cell_ids self') = {1}" by auto
  with r show ?thesis by blast
qed

text \<open>
  Claim C2. Let the emulator keep the size of its memory across a step. When
  \<^verbatim>\<open>find_causative_ram\<close> returns, the memory of the emulator is the snapshot
  taken at the start of the call, cell by cell, whatever was added to the
  candidate list; and it does return when \<open>(x, y)\<close> lies inside the frame.
\<close>

theorem find_causative_ram_restores_memory:
  assumes len: "\<forall>a. length (getRAM (env_step emu a)) = length (getRAM a)"
  shows "(\<forall>self'. find_causative_ram emu x y self = Inr self' \<longrightarrow>
            getRAM (env self') = getRAM (env self)) \<and>
         (0 \<le> x \<and> x < int (frame_width emu) \<and> 0 \<le> y \<and> y < int (frame_height emu) \<longrightarrow>
            (\<exists>self'. find_causative_ram emu x y self = Inr self'))"
proof -
  have len': "\<forall>a. length (ale_ram (env_step emu a)) = length (ale_ram a)"
    using len by (simp add: getRAM_def)
  have "getRAM (env self') = getRAM (env self)"
    if r: "find_causative_ram emu x y self = Inr self'" for self'
  proof (cases "axis_index (frame_height emu) y")
    case (Inl e)
    with find_causative_ram_out_of_frame [of emu y e x self] r show ?thesis by auto
  next
    case row: (Inr row)
    show ?thesis
    proof (cases "axis_index (frame_width emu) x")
      case (Inl e)
      with find_causative_ram_out_of_frame [of emu y e x self] r show ?thesis by auto
    next
      case col: (Inr col)
      from find_causative_ram_scan [OF len' row col, of self] obtain s where
        "find_causative_ram emu x y self = Inr s"
        and "env s = scan_env emu (env self) (length (ale_ram (env self)))"
        by (elim exE conjE)
      with r show ?thesis
        by (simp add: getRAM_def)
    qed
  qed
  moreover have "\<exists>self'. find_causative_ram emu x y self = Inr self'"
    if "0 \<le> x \<and> x < int (frame_width emu) \<and> 0 \<le> y \<and> y < int (frame_height emu)"
  proof -
    have "axis_index (frame_height emu) y = Inr (nat y)"
      and "axis_index (frame_width emu) x = Inr (nat x)"
      using that by (simp_all add: axis_index_inside)
    from find_causative_ram_scan [OF len' this, of self] obtain s where
      "find_causative_ram emu x y self = Inr s"
      by (elim exE conjE)
    then show ?thesis by (rule exI)
  qed
  ultimately show ?thesis by simp
qed

theorem find_causative_ram_restores_memory_witness:
  "\<exists>self'. find_causative_ram frame_count_emu 2 1
     \<lparr>env = \<lparr>ale_ram = [5, 7, 9], ale_hidden = 0\<rparr>, active_cell_idx = None,
      candidate_cell_ids = [], current_active_cell_input = []\<rparr> = Inr self' \<and>
     getRAM (env self') = [5, 7, 9]"
proof -
  let ?self = "\<lparr>env = \<lparr>ale_ram = [5, 7, 9], ale_hidden = 0\<rparr>, active_cell_idx = None,
      candidate_cell_ids = [], current_active_cell_input = []\<rparr>"
  have len: "\<forall>a. length (getRAM (env_step frame_count_emu a)) = length (getRAM a)"
    by (simp add: frame_count_emu_def getRAM_def)
  have inside: "0 \<le> (2 :: int) \<and> 2 < int (frame_width frame_count_emu) \<and>
      0 \<le> (1 :: int) \<and> 1 < int (frame_height frame_count_emu)"
    by (simp add: frame_count_emu_def)
  note both = find_causative_ram_restores_memory [OF len, of 2 1 ?self]
  from both [THEN conjunct2, THEN mp, OF inside] obtain self' where
    r: "find_causative_ram frame_count_emu 2 1 ?self = Inr self'"
    by (elim exE)
  from both [THEN conjunct1, THEN spec, THEN mp, OF r]
  have "getRAM (env self') = [5, 7, 9]"
    by (simp add: getRAM_def)
  with r show ?thesis by (intro exI [of _ self'] conjI)
qed

text \<open>
  Claim C3, as amended. Running a patcher twice in a row gives the same result
  as running it once, for \<^verbatim>\<open>alter_fish\<close> in every mode and for \<^verbatim>\<open>alter_shark\<close>
  in every mode but the ramp mode 4, on every memory (also on one too short,
  where both runs raise the same exception). In the ramp mode, on a memory with
  a cell 75, the second run changes the result again unless the cell held 115
  or 120.
\<close>

theorem patcher_twice:
  "and_then (alter_fish g self) (alter_fish g) = alter_fish g self \<and>
   (SHARK_MODE g \<noteq> 4 \<longrightarrow>
      and_then (alter_shark g self) (alter_shark g) = alter_shark g self) \<and>
   (SHARK_MODE g = 4 \<and> 75 < length (get_ram self) \<longrightarrow>
      (and_then (alter_shark g self) (alter_shark g) = alter_shark g self) =
      (uint (get_ram self ! 75) = 115 \<or> uint (get_ram self ! 75) = 120))"
  by (simp add: alter_fish_twice alter_shark_twice alter_shark_twice_eq shark_cell_ramp_twice
      get_ram_def getRAM_def)

theorem patcher_twice_witness:
  "and_then (alter_fish \<lparr>FISH_MODE = 3, SHARK_MODE = 3\<rparr>
               \<lparr>ale_ram = (replicate 128 0)[75 := 100], ale_hidden = ()\<rparr>)
            (alter_fish \<lparr>FISH_MODE = 3, SHARK_MODE = 3\<rparr>) =
   alter_fish \<lparr>FISH_MODE = 3, SHARK_MODE = 3\<rparr>
               \<lparr>ale_ram = (replicate 128 0)[75 := 100], ale_hidden = ()\<rparr> \<and>
   and_then (alter_shark \<lparr>FISH_MODE = 3, SHARK_MODE = 3\<rparr>
               \<lparr>ale_ram = (replicate 128 0)[75 := 100], ale_hidden = ()\<rparr>)
            (alter_shark \<lparr>FISH_MODE = 3, SHARK_MODE = 3\<rparr>) =
   alter_shark \<lparr>FISH_MODE = 3, SHARK_MODE = 3\<rparr>
               \<lparr>ale_ram = (replicate 128 0)[75 := 100], ale_hidden = ()\<rparr> \<and>
   and_then (alter_shark \<lparr>FISH_MODE = 3, SHARK_MODE = 4\<rparr>
               \<lparr>ale_ram = (replicate 128 0)[75 := 115], ale_hidden = ()\<rparr>)
            (alter_shark \<lparr>FISH_MODE = 3, SHARK_MODE = 4\<rparr>) =
   alter_shark \<lparr>FISH_MODE = 3, SHARK_MODE = 4\<rparr>
               \<lparr>ale_ram = (replicate 128 0)[75 := 115], ale_hidden = ()\<rparr>"
  using patcher_twice [of "\<lparr>FISH_MODE = 3, SHARK_MODE = 3\<rparr>"
      "\<lparr>ale_ram = (replicate 128 0)[75 := 100], ale_hidden = ()\<rparr>"]
    patcher_twice [of "\<lparr>FISH_MODE = 3, SHARK_MODE = 4\<rparr>"
      "\<lparr>ale_ram = (replicate 128 0)[75 := 115], ale_hidden = ()\<rparr>"]
  by (simp add: get_ram_def getRAM_def)

text \<open>
  The claim as stated fails in the ramp mode: from a cell 75 holding 0, one run
  of \<^verbatim>\<open>alter_shark\<close> in mode 4 leaves 5 and two runs leave 10.
\<close>

theorem shark_ramp_not_idempotent:
  "alter_shark \<lparr>FISH_MODE = 0, SHARK_MODE = 4\<rparr> \<lparr>ale_ram = replicate 128 0, ale_hidden = ()\<rparr>
     = Inr \<lparr>ale_ram = (replicate 128 0)[75 := 5], ale_hidden = ()\<rparr> \<and>
   and_then (alter_shark \<lparr>FISH_MODE = 0, SHARK_MODE = 4\<rparr>
               \<lparr>ale_ram = replicate 128 0, ale_hidden = ()\<rparr>)
            (alter_shark \<lparr>FISH_MODE = 0, SHARK_MODE = 4\<rparr>)
     = Inr \<lparr>ale_ram = (replicate 128 0)[75 := 10], ale_hidden = ()\<rparr> \<and>
   and_then (alter_shark \<lparr>FISH_MODE = 0, SHARK_MODE = 4\<rparr>
               \<lparr>ale_ram = replicate 128 0, ale_hidden = ()\<rparr>)
            (alter_shark \<lparr>FISH_MODE = 0, SHARK_MODE = 4\<rparr>)
     \<noteq> alter_shark \<lparr>FISH_MODE = 0, SHARK_MODE = 4\<rparr>
               \<lparr>ale_ram = replicate 128 0, ale_hidden = ()\<rparr>"
  by (simp add: alter_shark_cell shark_cell_def list_update_cell_eq)

text \<open>
  Claim C4. In the shark's ramp mode (\<^verbatim>\<open>SHARK_MODE = 4\<close>), with \<open>v\<close> the value of
  cell 75 before \<^verbatim>\<open>alter_shark\<close> and \<open>v'\<close> the value after it: if \<open>v < 120\<close> then
  \<open>v' = v + 5\<close>, as integers, so the sum does not wrap and stays below 256; if
  \<open>v > 120\<close> then \<open>v' = 1\<close>; in particular 115 becomes 120 and 121 becomes 1. The
  call returns whenever the memory has a cell 75.
\<close>

theorem shark_ramp_mode:
  assumes "SHARK_MODE g = 4" and "75 < length (get_ram self)"
  shows "\<exists>self'. alter_shark g self = Inr self' \<and>
           (let v = uint (get_ram self ! 75); v' = uint (get_ram self' ! 75) in
              (v < 120 \<longrightarrow> v' = v + 5 \<and> v' \<le> 255) \<and>
              (v > 120 \<longrightarrow> v' = 1) \<and>
              (v = 115 \<longrightarrow> v' = 120) \<and>
              (v = 121 \<longrightarrow> v' = 1))"
  using assms
  by (simp add: get_ram_def getRAM_def alter_shark_cell uint_shark_cell_ramp Let_def)

theorem shark_ramp_mode_witness:
  "(\<exists>self'. alter_shark \<lparr>FISH_MODE = 0, SHARK_MODE = 4\<rparr>
               \<lparr>ale_ram = (replicate 128 0)[75 := 115], ale_hidden = ()\<rparr> = Inr self' \<and>
             uint (get_ram self' ! 75) = 120) \<and>
   (\<exists>self'. alter_shark \<lparr>FISH_MODE = 0, SHARK_MODE = 4\<rparr>
               \<lparr>ale_ram = (replicate 128 0)[75 := 121], ale_hidden = ()\<rparr> = Inr self' \<and>
             uint (get_ram self' ! 75) = 1)"
  using shark_ramp_mode [of "\<lparr>FISH_MODE = 0, SHARK_MODE = 4\<rparr>"
      "\<lparr>ale_ram = (replicate 128 0)[75 := 115], ale_hidden = ()\<rparr>"]
    shark_ramp_mode [of "\<lparr>FISH_MODE = 0, SHARK_MODE = 4\<rparr>"
      "\<lparr>ale_ram = (replicate 128 0)[75 := 121], ale_hidden = ()\<rparr>"]
  by (auto simp add: get_ram_def getRAM_def Let_def)

text \<open>
  Claim C5. In the shark's boundary-bounce mode (\<^verbatim>\<open>SHARK_MODE = 3\<close>), a value 100
  of cell 75 is rewritten to 25, a value 30 is rewritten to 105, and for every
  other value \<^verbatim>\<open>alter_shark\<close> returns the environment as it found it.
\<close>

theorem shark_bounce_mode:
  assumes "SHARK_MODE g = 3" and "75 < length (get_ram self)"
  shows "\<exists>self'. alter_shark g self = Inr self' \<and>
           (let v = uint (get_ram self ! 75); v' = uint (get_ram self' ! 75) in
              (v = 100 \<longrightarrow> v' = 25) \<and>
              (v = 30 \<longrightarrow> v' = 105) \<and>
              (v \<noteq> 100 \<and> v \<noteq> 30 \<longrightarrow> self' = self))"
  using assms
  by (simp add: get_ram_def getRAM_def alter_shark_cell shark_cell_def Let_def)

theorem shark_bounce_mode_witness:
  "(\<exists>self'. alter_shark \<lparr>FISH_MODE = 0, SHARK_MODE = 3\<rparr>
               \<lparr>ale_ram = (replicate 128 0)[75 := 100], ale_hidden = ()\<rparr> = Inr self' \<and>
             uint (get_ram self' ! 75) = 25) \<and>
   (\<exists>self'. alter_shark \<lparr>FISH_MODE = 0, SHARK_MODE = 3\<rparr>
               \<lparr>ale_ram = (replicate 128 0)[75 := 30], ale_hidden = ()\<rparr> = Inr self' \<and>
             uint (get_ram self' ! 75) = 105) \<and>
   alter_shark \<lparr>FISH_MODE = 0, SHARK_MODE = 3\<rparr>
               \<lparr>ale_ram = (replicate 128 0)[75 := 99], ale_hidden = ()\<rparr>
     = Inr \<lparr>ale_ram = (replicate 128 0)[75 := 99], ale_hidden = ()\<rparr>"
  using shark_bounce_mode [of "\<lparr>FISH_MODE = 0, SHARK_MODE = 3\<rparr>"
      "\<lparr>ale_ram = (replicate 128 0)[75 := 100], ale_hidden = ()\<rparr>"]
    shark_bounce_mode [of "\<lparr>FISH_MODE = 0, SHARK_MODE = 3\<rparr>"
      "\<lparr>ale_ram = (replicate 128 0)[75 := 30], ale_hidden = ()\<rparr>"]
    shark_bounce_mode [of "\<lparr>FISH_MODE = 0, SHARK_MODE = 3\<rparr>"
      "\<lparr>ale_ram = (replicate 128 0)[75 := 99], ale_hidden = ()\<rparr>"]
  by (auto simp add: get_ram_def getRAM_def Let_def)

text \<open>
  Claim C6. In the fish mode "always in the middle" (\<^verbatim>\<open>FISH_MODE = 3\<close>), for each
  of the six fish cells 69 to 74: a value above 86 becomes 70, a value below 70
  becomes 86, and a value from 70 to 86 stays. The call returns whenever the
  memory has these cells.
\<close>

theorem fish_middle_mode:
  assumes "FISH_MODE g = 3" and "74 < length (get_ram self)"
  shows "\<exists>self'. alter_fish g self = Inr self' \<and>
           (\<forall>j. 69 \<le> j \<and> j \<le> 74 \<longrightarrow>
              (let v = uint (get_ram self ! j); v' = uint (get_ram self' ! j) in
                 (v > 86 \<longrightarrow> v' = 70) \<and>
                 (v < 70 \<longrightarrow> v' = 86) \<and>
                 (70 \<le> v \<and> v \<le> 86 \<longrightarrow> v' = v)))"
  using assms
  by (simp add: get_ram_def getRAM_def alter_fish_cells nth_fish_cells_six fish_cell_def Let_def)

theorem fish_middle_mode_witness:
  "\<exists>self'. alter_fish \<lparr>FISH_MODE = 3, SHARK_MODE = 0\<rparr>
               \<lparr>ale_ram = (replicate 128 0)[69 := 87, 70 := 69, 71 := 80], ale_hidden = ()\<rparr>
             = Inr self' \<and>
     uint (get_ram self' ! 69) = 70 \<and> uint (get_ram self' ! 70) = 86 \<and>
     uint (get_ram self' ! 71) = 80"
proof -
  let ?g = "\<lparr>FISH_MODE = 3, SHARK_MODE = 0\<rparr>"
  let ?self = "\<lparr>ale_ram = (replicate 128 0)[69 := 87, 70 := 69, 71 := 80], ale_hidden = ()\<rparr>"
  have "FISH_MODE ?g = 3" and "74 < length (get_ram ?self)"
    by (simp_all add: get_ram_def getRAM_def)
  from fish_middle_mode [OF this] obtain self' where
    r: "alter_fish ?g ?self = Inr self'"
    and c: "\<And>j. 69 \<le> j \<and> j \<le> 74 \<longrightarrow>
              (let v = uint (get_ram ?self ! j); v' = uint (get_ram self' ! j) in
                 (v > 86 \<longrightarrow> v' = 70) \<and> (v < 70 \<longrightarrow> v' = 86) \<and>
                 (70 \<le> v \<and> v \<le> 86 \<longrightarrow> v' = v))"
    by blast
  from c [of 69] c [of 70] c [of 71] r show ?thesis
    by (simp add: get_ram_def getRAM_def Let_def)
qed

text \<open>
  Claim C7. On a memory that has the cells 69 to 75, and for every pair of
  modes: \<^verbatim>\<open>alter_shark\<close> followed by \<^verbatim>\<open>alter_fish\<close> and \<^verbatim>\<open>alter_fish\<close>
  followed by \<^verbatim>\<open>alter_shark\<close> both return, with the same environment;
  \<^verbatim>\<open>alter_shark\<close> leaves every cell but cell 75 as it was, and \<^verbatim>\<open>alter_fish\<close>
  every cell but the cells 69 to 74; neither changes the size of the memory or
  the rest of the emulator state.
\<close>

theorem patchers_commute:
  assumes "75 < length (get_ram self)"
  shows "(\<exists>s. and_then (alter_shark g self) (alter_fish g) = Inr s \<and>
              and_then (alter_fish g self) (alter_shark g) = Inr s) \<and>
         (\<exists>s. alter_shark g self = Inr s \<and> ale_hidden s = ale_hidden self \<and>
              length (get_ram s) = length (get_ram self) \<and>
              (\<forall>j. j \<noteq> 75 \<longrightarrow> get_ram s ! j = get_ram self ! j)) \<and>
         (\<exists>s. alter_fish g self = Inr s \<and> ale_hidden s = ale_hidden self \<and>
              length (get_ram s) = length (get_ram self) \<and>
              (\<forall>j. \<not> (69 \<le> j \<and> j \<le> 74) \<longrightarrow> get_ram s ! j = get_ram self ! j))"
  using assms
  by (simp add: get_ram_def getRAM_def alter_shark_cell alter_fish_cells
      fish_cells_shark_cell_commute nth_fish_cells_six)

theorem patchers_commute_witness:
  "and_then (alter_shark \<lparr>FISH_MODE = 3, SHARK_MODE = 4\<rparr>
               \<lparr>ale_ram = (replicate 128 0)[69 := 87, 75 := 115], ale_hidden = ()\<rparr>)
            (alter_fish \<lparr>FISH_MODE = 3, SHARK_MODE = 4\<rparr>) =
   and_then (alter_fish \<lparr>FISH_MODE = 3, SHARK_MODE = 4\<rparr>
               \<lparr>ale_ram = (replicate 128 0)[69 := 87, 75 := 115], ale_hidden = ()\<rparr>)
            (alter_shark \<lparr>FISH_MODE = 3, SHARK_MODE = 4\<rparr>) \<and>
   (\<exists>s. alter_shark \<lparr>FISH_MODE = 3, SHARK_MODE = 4\<rparr>
               \<lparr>ale_ram = (replicate 128 0)[69 := 87, 75 := 115], ale_hidden = ()\<rparr> = Inr s \<and>
        get_ram s ! 69 = 87) \<and>
   (\<exists>s. alter_fish \<lparr>FISH_MODE = 3, SHARK_MODE = 4\<rparr>
               \<lparr>ale_ram = (replicate 128 0)[69 := 87, 75 := 115], ale_hidden = ()\<rparr> = Inr s \<and>
        get_ram s ! 75 = 115)"
proof -
  let ?g = "\<lparr>FISH_MODE = 3, SHARK_MODE = 4\<rparr>"
  let ?self = "\<lparr>ale_ram = (replicate 128 0)[69 := 87, 75 := 115], ale_hidden = ()\<rparr>"
  have "75 < length (get_ram ?self)"
    by (simp add: get_ram_def getRAM_def)
  from patchers_commute [OF this, of ?g] show ?thesis
    by (auto simp add: get_ram_def getRAM_def)
qed

text \<open>
  Claim C8. The three memory-writing branches of the input handler pass only
  values from 0 to 255 to \<^verbatim>\<open>setRAM\<close>, which would reject any other value with
  \<open>InvalidMemoryValue\<close>: none of them ends in that error. On a cell of the memory
  the wheel up leaves \<open>min (v + 1) 255\<close>, so 255 stays 255, and the wheel down
  leaves \<open>max (v - 1) 0\<close>, so 0 stays 0. The return key with a typed number of
  256 or more returns with the emulator unchanged; with a typed number below
  256 it writes that number, which is not negative, to the active cell.
\<close>

theorem interactive_writes_in_range:
  "(\<forall>idx. cell = Some idx \<and> idx < length (getRAM (env self)) \<longrightarrow>
      (\<exists>self'. mousewheel_up cell self = Inr self' \<and>
         uint (getRAM (env self') ! idx) = min (uint (getRAM (env self) ! idx) + 1) 255) \<and>
      (\<exists>self'. mousewheel_down cell self = Inr self' \<and>
         uint (getRAM (env self') ! idx) = max (uint (getRAM (env self) ! idx) - 1) 0)) \<and>
   mousewheel_up cell self \<noteq> Inl InvalidMemoryValue \<and>
   mousewheel_down cell self \<noteq> Inl InvalidMemoryValue \<and>
   key_return self \<noteq> Inl InvalidMemoryValue \<and>
   (\<forall>n. py_int (current_active_cell_input self) = Inr n \<and> 256 \<le> n \<longrightarrow>
      (\<exists>self'. key_return self = Inr self' \<and> env self' = env self)) \<and>
   (\<forall>idx n. active_cell_idx self = Some idx \<and> idx < length (getRAM (env self)) \<and>
        py_int (current_active_cell_input self) = Inr n \<and> n < 256 \<longrightarrow>
      0 \<le> n \<and>
      (\<exists>self'. key_return self = Inr self' \<and>
         getRAM (env self') = (getRAM (env self))[idx := word_of_int n]))"
proof (intro conjI allI impI)
  fix idx
  assume a: "cell = Some idx \<and> idx < length (getRAM (env self))"
  then have i: "idx < length (ale_ram (env self))" by (simp add: getRAM_def)
  from Renderer_increment_ok [OF i] a
  show "\<exists>self'. mousewheel_up cell self = Inr self' \<and>
         uint (getRAM (env self') ! idx) = min (uint (getRAM (env self) ! idx) + 1) 255"
    by (auto simp add: mousewheel_up_def getRAM_def)
  from Renderer_decrement_ok [OF i] a
  show "\<exists>self'. mousewheel_down cell self = Inr self' \<and>
         uint (getRAM (env self') ! idx) = max (uint (getRAM (env self) ! idx) - 1) 0"
    by (auto simp add: mousewheel_down_def getRAM_def)
next
  show "mousewheel_up cell self \<noteq> Inl InvalidMemoryValue"
    by (cases cell) (simp_all add: mousewheel_up_def Renderer_increment_value)
next
  show "mousewheel_down cell self \<noteq> Inl InvalidMemoryValue"
    by (cases cell) (simp_all add: mousewheel_down_def Renderer_decrement_value)
next
  show "key_return self \<noteq> Inl InvalidMemoryValue"
    by (rule key_return_value)
next
  fix n
  assume a: "py_int (current_active_cell_input self) = Inr n \<and> 256 \<le> n"
  with py_int_nonempty [of "current_active_cell_input self" n]
  show "\<exists>self'. key_return self = Inr self' \<and> env self' = env self"
    by (cases "active_cell_idx self")
      (simp_all add: key_return_def Renderer_unselect_active_cell_def)
next
  fix idx n
  assume a: "active_cell_idx self = Some idx \<and> idx < length (getRAM (env self)) \<and>
        py_int (current_active_cell_input self) = Inr n \<and> n < 256"
  then have n: "0 \<le> n" "n \<le> 255" using py_int_nonneg [of "current_active_cell_input self" n]
    by simp_all
  then show "0 \<le> n" by simp
  from a have i: "idx < length (ale_ram (env self))" by (simp add: getRAM_def)
  from a py_int_nonempty [of "current_active_cell_input self" n]
    Renderer_set_ram_value_at_ok [OF i n]
  show "\<exists>self'. key_return self = Inr self' \<and>
         getRAM (env self') = (getRAM (env self))[idx := word_of_int n]"
    by (simp add: key_return_def Renderer_unselect_active_cell_def getRAM_def)
qed

theorem interactive_writes_in_range_witness:
  "(\<exists>self'. mousewheel_up (Some 1)
       \<lparr>env = \<lparr>ale_ram = [5, 255, 0], ale_hidden = ()\<rparr>, active_cell_idx = Some 0,
        candidate_cell_ids = [], current_active_cell_input = ''256''\<rparr> = Inr self' \<and>
      uint (getRAM (env self') ! 1) = 255) \<and>
   (\<exists>self'. mousewheel_down (Some 2)
       \<lparr>env = \<lparr>ale_ram = [5, 255, 0], ale_hidden = ()\<rparr>, active_cell_idx = Some 0,
        candidate_cell_ids = [], current_active_cell_input = ''256''\<rparr> = Inr self' \<and>
      uint (getRAM (env self') ! 2) = 0) \<and>
   (\<exists>self'. key_return
       \<lparr>env = \<lparr>ale_ram = [5, 255, 0], ale_hidden = ()\<rparr>, active_cell_idx = Some 0,
        candidate_cell_ids = [], current_active_cell_input = ''256''\<rparr> = Inr self' \<and>
      env self' = \<lparr>ale_ram = [5, 255, 0], ale_hidden = ()\<rparr>) \<and>
   (\<exists>self'. key_return
       \<lparr>env = \<lparr>ale_ram = [5, 255, 0], ale_hidden = ()\<rparr>, active_cell_idx = Some 0,
        candidate_cell_ids = [], current_active_cell_input = ''255''\<rparr> = Inr self' \<and>
      getRAM (env self') = [255, 255, 0])"
proof -
  let ?e = "\<lparr>ale_ram = [5, 255, 0], ale_hidden = ()\<rparr>"
  let ?s = "\<lparr>env = ?e, active_cell_idx = Some 0,
        candidate_cell_ids = [], current_active_cell_input = ''256''\<rparr>"
  let ?t = "\<lparr>env = ?e, active_cell_idx = Some 0,
        candidate_cell_ids = [], current_active_cell_input = ''255''\<rparr>"
  have p256: "py_int ''256'' = Inr 256" and p255: "py_int ''255'' = Inr 255"
    by (simp_all add: py_int_def digit_of_def)
  note up = interactive_writes_in_range [of "Some 1" ?s, THEN conjunct1, rule_format, of 1]
  note down = interactive_writes_in_range [of "Some 2" ?s, THEN conjunct1, rule_format, of 2]
  note big = interactive_writes_in_range [of None ?s, THEN conjunct2, THEN conjunct2,
      THEN conjunct2, THEN conjunct2, THEN conjunct1, rule_format, of 256]
  note small = interactive_writes_in_range [of None ?t, THEN conjunct2, THEN conjunct2,
      THEN conjunct2, THEN conjunct2, THEN conjunct2, rule_format, of 0 255]
  from up have "\<exists>self'. mousewheel_up (Some 1) ?s = Inr self' \<and>
      uint (getRAM (env self') ! 1) = 255"
    by (simp add: getRAM_def)
  moreover from down have "\<exists>self'. mousewheel_down (Some 2) ?s = Inr self' \<and>
      uint (getRAM (env self') ! 2) = 0"
    by (simp add: getRAM_def)
  moreover from big p256 have "\<exists>self'. key_return ?s = Inr self' \<and> env self' = ?e"
    by simp
  moreover from small p255 have "\<exists>self'. key_return ?t = Inr self' \<and>
      getRAM (env self') = [255, 255, 0]"
    by (simp add: getRAM_def)
  ultimately show ?thesis by simp
qed

text \<open>
  Claim C9, as amended. \<^verbatim>\<open>modif_funcs\<close> returns if and only if every string of
  the list is non-empty and ends in a decimal digit. On such a list the
  returned \<^verbatim>\<open>reset_modifs\<close> is empty; \<^verbatim>\<open>step_modifs\<close> holds, in the order of the
  list, \<^verbatim>\<open>alter_fish\<close> for each string starting with \<open>f\<close> and \<^verbatim>\<open>alter_shark\<close> for
  each string starting with \<open>s\<close>, and nothing for any other string;
  \<^verbatim>\<open>FISH_MODE\<close> is the digit ending the last string that starts with \<open>f\<close>, or
  unchanged when there is none, and likewise \<^verbatim>\<open>SHARK_MODE\<close> for \<open>s\<close>.
\<close>

theorem modif_funcs_well_formed:
  "((\<exists>r. modif_funcs modifs g = Inr r) \<longleftrightarrow>
      (\<forall>m\<in>set modifs. m \<noteq> [] \<and> digit_of (last m) \<noteq> None)) \<and>
   ((\<forall>m\<in>set modifs. m \<noteq> [] \<and> digit_of (last m) \<noteq> None) \<longrightarrow>
      (\<exists>g'. modif_funcs modifs g =
           Inr ((concat (map (\<lambda>m. if startswith m ''f'' then [AlterFish]
                                   else if startswith m ''s'' then [AlterShark] else []) modifs),
                 []), g') \<and>
           (filter (\<lambda>m. startswith m ''f'') modifs = [] \<longrightarrow> FISH_MODE g' = FISH_MODE g) \<and>
           (filter (\<lambda>m. startswith m ''f'') modifs \<noteq> [] \<longrightarrow>
              digit_of (last (last (filter (\<lambda>m. startswith m ''f'') modifs))) = Some (FISH_MODE g')) \<and>
           (filter (\<lambda>m. startswith m ''s'') modifs = [] \<longrightarrow> SHARK_MODE g' = SHARK_MODE g) \<and>
           (filter (\<lambda>m. startswith m ''s'') modifs \<noteq> [] \<longrightarrow>
              digit_of (last (last (filter (\<lambda>m. startswith m ''s'') modifs))) = Some (SHARK_MODE g'))))"
proof -
  let ?wf = "\<forall>m\<in>set modifs. m \<noteq> [] \<and> digit_of (last m) \<noteq> None"
  have ok: "\<exists>g'. modif_funcs modifs g =
           Inr ((concat (map (\<lambda>m. if startswith m ''f'' then [AlterFish]
                                   else if startswith m ''s'' then [AlterShark] else []) modifs),
                 []), g') \<and>
           (filter (\<lambda>m. startswith m ''f'') modifs = [] \<longrightarrow> FISH_MODE g' = FISH_MODE g) \<and>
           (filter (\<lambda>m. startswith m ''f'') modifs \<noteq> [] \<longrightarrow>
              digit_of (last (last (filter (\<lambda>m. startswith m ''f'') modifs))) = Some (FISH_MODE g')) \<and>
           (filter (\<lambda>m. startswith m ''s'') modifs = [] \<longrightarrow> SHARK_MODE g' = SHARK_MODE g) \<and>
           (filter (\<lambda>m. startswith m ''s'') modifs \<noteq> [] \<longrightarrow>
              digit_of (last (last (filter (\<lambda>m. startswith m ''s'') modifs))) = Some (SHARK_MODE g'))"
    if ?wf
    using modif_loop_well_formed [OF that, of "[]" g]
    by (auto simp add: modif_funcs_def)
  have bad: "\<not> (\<exists>r. modif_funcs modifs g = Inr r)" if "\<not> ?wf"
  proof -
    from that have "\<exists>m\<in>set modifs. m = [] \<or> digit_of (last m) = None" by auto
    from modif_loop_ill_formed [OF this, of "[]" g] show ?thesis
      by (auto simp add: modif_funcs_def)
  qed
  have "(\<exists>r. modif_funcs modifs g = Inr r) \<longleftrightarrow> ?wf"
  proof
    assume "\<exists>r. modif_funcs modifs g = Inr r"
    with bad show ?wf by (rule_tac ccontr) simp
  next
    assume ?wf
    from ok [OF this] obtain g' where
      "modif_funcs modifs g =
           Inr ((concat (map (\<lambda>m. if startswith m ''f'' then [AlterFish]
                                   else if startswith m ''s'' then [AlterShark] else []) modifs),
                 []), g')"
      by (elim exE conjE)
    then show "\<exists>r. modif_funcs modifs g = Inr r" by (rule exI)
  qed
  moreover from ok have "?wf \<longrightarrow> (\<exists>g'. modif_funcs modifs g =
           Inr ((concat (map (\<lambda>m. if startswith m ''f'' then [AlterFish]
                                   else if startswith m ''s'' then [AlterShark] else []) modifs),
                 []), g') \<and>
           (filter (\<lambda>m. startswith m ''f'') modifs = [] \<longrightarrow> FISH_MODE g' = FISH_MODE g) \<and>
           (filter (\<lambda>m. startswith m ''f'') modifs \<noteq> [] \<longrightarrow>
              digit_of (last (last (filter (\<lambda>m. startswith m ''f'') modifs))) = Some (FISH_MODE g')) \<and>
           (filter (\<lambda>m. startswith m ''s'') modifs = [] \<longrightarrow> SHARK_MODE g' = SHARK_MODE g) \<and>
           (filter (\<lambda>m. startswith m ''s'') modifs \<noteq> [] \<longrightarrow>
              digit_of (last (last (filter (\<lambda>m. startswith m ''s'') modifs))) = Some (SHARK_MODE g')))"
    by (rule impI)
  ultimately show ?thesis by (rule conjI)
qed

theorem modif_funcs_well_formed_witness:
  "modif_funcs [''fish_mode3'', ''shark4'', ''x1'', ''f2''] \<lparr>FISH_MODE = 0, SHARK_MODE = 0\<rparr> =
     Inr (([AlterFish, AlterShark, AlterFish], []), \<lparr>FISH_MODE = 2, SHARK_MODE = 4\<rparr>)"
proof -
  let ?ms = "[''fish_mode3'', ''shark4'', ''x1'', ''f2'']"
  let ?g = "\<lparr>FISH_MODE = 0, SHARK_MODE = 0\<rparr>"
  have wf: "\<forall>m\<in>set ?ms. m \<noteq> [] \<and> digit_of (last m) \<noteq> None"
    by (simp add: digit_of_def)
  from modif_funcs_well_formed [of ?ms ?g, THEN conjunct2, THEN mp, OF wf]
  obtain g' where r: "modif_funcs ?ms ?g =
           Inr ((concat (map (\<lambda>m. if startswith m ''f'' then [AlterFish]
                                   else if startswith m ''s'' then [AlterShark] else []) ?ms),
                 []), g')"
    and f: "filter (\<lambda>m. startswith m ''f'') ?ms \<noteq> [] \<longrightarrow>
              digit_of (last (last (filter (\<lambda>m. startswith m ''f'') ?ms))) = Some (FISH_MODE g')"
    and s: "filter (\<lambda>m. startswith m ''s'') ?ms \<noteq> [] \<longrightarrow>
              digit_of (last (last (filter (\<lambda>m. startswith m ''s'') ?ms))) = Some (SHARK_MODE g')"
    by (elim exE conjE)
  from f s have "FISH_MODE g' = 2" and "SHARK_MODE g' = 4"
    by (simp_all add: startswith_def digit_of_def)
  then have "g' = \<lparr>FISH_MODE = 2, SHARK_MODE = 4\<rparr>" by (cases g') simp
  with r show ?thesis by (simp add: startswith_def)
qed

text \<open>
  The claim as stated fails on a list with a string that does not end in a
  digit, also when that string starts with neither letter, and on a list with
  the empty string: \<^verbatim>\<open>int(mod[-1])\<close> raises before the prefix is looked at.
\<close>

theorem modif_funcs_raises:
  "modif_funcs [''x''] \<lparr>FISH_MODE = 0, SHARK_MODE = 0\<rparr> = Inl ValueError \<and>
   modif_funcs [''fish''] \<lparr>FISH_MODE = 0, SHARK_MODE = 0\<rparr> = Inl ValueError \<and>
   modif_funcs [[]] \<lparr>FISH_MODE = 0, SHARK_MODE = 0\<rparr> = Inl IndexError"
  by (simp add: modif_funcs_def py_int_def digit_of_def)

text \<open>
  Claim C10. Whenever \<^verbatim>\<open>find_causative_ram\<close> returns, on any emulator, the
  candidate list it leaves is strictly increasing, hence free of duplicates,
  and holds indices of the memory only: nothing of the list found at the call
  survives.
\<close>

theorem candidate_cell_ids_increasing:
  assumes "find_causative_ram emu x y self = Inr self'"
  shows "sorted_wrt (<) (candidate_cell_ids self') \<and> distinct (candidate_cell_ids self') \<and>
         set (candidate_cell_ids self') \<subseteq> {0..<length (getRAM (env self))}"
  using find_causative_ram_sorted [OF assms] find_causative_ram_subset [OF assms]
  by (simp add: strict_sorted_iff)

theorem candidate_cell_ids_increasing_witness:
  "find_causative_ram frame_count_emu 2 1
     \<lparr>env = \<lparr>ale_ram = [5, 7, 9], ale_hidden = 0\<rparr>, active_cell_idx = None,
      candidate_cell_ids = [], current_active_cell_input = []\<rparr> =
   Inr \<lparr>env = \<lparr>ale_ram = [5, 7, 9], ale_hidden = 4\<rparr>, active_cell_idx = None,
        candidate_cell_ids = [0, 2], current_active_cell_input = []\<rparr> \<and>
   sorted_wrt (<) [0, 2 :: nat] \<and> distinct [0, 2 :: nat] \<and> set [0, 2 :: nat] \<subseteq> {0..<3}"
  using candidate_cell_ids_increasing [OF find_causative_ram_frame_count_emu [THEN conjunct1]]
    find_causative_ram_frame_count_emu [THEN conjunct1]
  by (simp add: getRAM_def)

end
